theory Spec2Isabelle
  imports Main
begin

section \<open>Errors\<close>

text \<open>
  Every \<^verbatim>\<open>throw\<close>, failed \<^verbatim>\<open>assert\<close> and promise rejection of the library is a value of
  one type. The constructors that carry a string are the errors whose message
  interpolates a name. \<open>HandlerError\<close> is a value raised by user code (thrown, passed
  to the continuation trigger, or the reason of a rejected promise);
  \<open>CancellationError\<close> is bluebird's \<^verbatim>\<open>Promise.CancellationError\<close>, which the
  controller uses as its internal "skip the rest" signal. User code is assumed not to
  raise a \<^verbatim>\<open>CancellationError\<close> of its own.
\<close>

datatype error =
    InvalidFilterName              \<comment> \<open>"Filter names must be strings, saw ... instead."\<close>
  | ConflictingOptions             \<comment> \<open>"You cannot supply both 'only' and 'except' options to a filter"\<close>
  | UnknownFilter                  \<comment> \<open>"You are trying to skip the ... filter, but it is not present!"\<close>
  | UndefinedAction string         \<comment> \<open>"... action is not defined on this controller"\<close>
  | UndefinedFilter string         \<comment> \<open>"... filter is not defined."\<close>
  | DualCompletionError string     \<comment> \<open>"Your ... action returned a Promise *and* called continue"\<close>
  | MissingCompletionSignal string \<comment> \<open>"... did not return a promise or accept a next() callback."\<close>
  | IncompleteActionError string   \<comment> \<open>"Incomplete action! It looks like your ... action didn't respond"\<close>
  | CancellationError
  | TypeError
  | HandlerError nat

section \<open>The filter DSL (lib/filter-dsl.js)\<close>

subsection \<open>Option values and option objects\<close>

text \<open>
  The \<^verbatim>\<open>only\<close> and \<^verbatim>\<open>except\<close> properties of an options object are absent, a single
  action name, or an array of action names. \<open>truthy\<close> is JavaScript's truthiness of
  such a value (the empty string is falsy, every array is truthy); \<open>ensureArray\<close> is
  the \<^verbatim>\<open>ensure-array\<close> package: nothing becomes the empty array, an array is returned
  as it is, and anything else is wrapped in a one-element array.
\<close>

datatype jsval = Undefined | Str string | Arr "string list"

fun truthy :: "jsval \<Rightarrow> bool" where
  "truthy Undefined = False"
| "truthy (Str s) = (s \<noteq> [])"
| "truthy (Arr xs) = True"

fun ensureArray :: "jsval \<Rightarrow> string list" where
  "ensureArray Undefined = []"
| "ensureArray (Str s) = [s]"
| "ensureArray (Arr xs) = xs"

text \<open>
  \<open>items\<close> reads a property that holds an array. The properties it is applied to
  belong to options objects that \<^verbatim>\<open>_filter\<close> or \<^verbatim>\<open>_skip\<close> has normalised, so they
  are arrays (lemma \<open>reachable_arrays\<close> below).
\<close>

fun items :: "jsval \<Rightarrow> string list" where
  "items (Arr xs) = xs"
| "items _ = []"

record options =
  only :: jsval
  except :: jsval
  skip :: bool

text \<open>
  Options objects are JavaScript objects: \<^verbatim>\<open>_filter\<close> stores the caller's object in the
  declaration and both \<^verbatim>\<open>_filter\<close> and \<^verbatim>\<open>_skip\<close> assign to the properties of the object
  they are given. The objects therefore live in a store. \<open>Caller n\<close> is an object
  that the caller of the DSL holds and can pass again, \<open>Created k\<close> is the \<open>k\<close>-th object
  created while a DSL call is made: by an object literal in the argument or by the
  default parameter \<^verbatim>\<open>options = {}\<close>. The caller may pass the same object to several
  calls; it does not assign to an object itself once it has passed it.
\<close>

datatype ref = Caller nat | Created nat

datatype stage = Before | After

record filter_decl =
  name :: string
  stage :: stage
  options :: ref

record FilterDSL =
  filters :: "filter_decl list"
  heap :: "ref \<Rightarrow> options"
  allocated :: nat

text \<open>\<^verbatim>\<open>init()\<close>: \<^verbatim>\<open>this.filters = []\<close>. The store holds the caller's objects.\<close>

definition init :: "(nat \<Rightarrow> options) \<Rightarrow> FilterDSL" where
  "init objs =
     \<lparr>filters = [],
      heap = (\<lambda>r. case r of Caller n \<Rightarrow> objs n
                            | Created k \<Rightarrow> \<lparr>only = Undefined, except = Undefined, skip = False\<rparr>),
      allocated = 0\<rparr>"

text \<open>
  A filter name is a string or a function reference. The options argument is omitted, or
  is an object literal such as \<^verbatim>\<open>{ only: 'index' }\<close>, which is a new object each time the
  call is evaluated, or is an object that the caller holds.
\<close>

datatype jsname = StringName string | FunctionRef nat

datatype optarg = Omitted | Literal options | Object nat

text \<open>The object that a call receives as \<^verbatim>\<open>options\<close>. An object literal creates a new
  object; the default parameter \<^verbatim>\<open>options = {}\<close> creates a new empty object when the argument is
  undefined.\<close>

fun options_argument :: "optarg \<Rightarrow> FilterDSL \<Rightarrow> ref \<times> FilterDSL" where
  "options_argument (Object n) d = (Caller n, d)"
| "options_argument (Literal opts) d =
     (Created (allocated d),
      d\<lparr>heap := (heap d)(Created (allocated d) := opts), allocated := Suc (allocated d)\<rparr>)"
| "options_argument Omitted d =
     (Created (allocated d),
      d\<lparr>heap := (heap d)(Created (allocated d) :=
                    \<lparr>only = Undefined, except = Undefined, skip = False\<rparr>),
        allocated := Suc (allocated d)\<rparr>)"

text \<open>The two assignments \<^verbatim>\<open>options.only = ensureArray(options.only)\<close> and
  \<^verbatim>\<open>options.except = ensureArray(options.except)\<close>.\<close>

definition normalise :: "ref \<Rightarrow> (ref \<Rightarrow> options) \<Rightarrow> (ref \<Rightarrow> options)" where
  "normalise r h =
     (let h1 = h(r := (h r)\<lparr>only := Arr (ensureArray (only (h r)))\<rparr>)
      in h1(r := (h1 r)\<lparr>except := Arr (ensureArray (except (h1 r)))\<rparr>))"

subsection \<open>\<^verbatim>\<open>_filter\<close>, \<^verbatim>\<open>before\<close>, \<^verbatim>\<open>after\<close>\<close>

definition filter_op :: "jsname \<Rightarrow> stage \<Rightarrow> optarg \<Rightarrow> FilterDSL \<Rightarrow> error + FilterDSL" where
  "filter_op nm st arg d0 =
     (case options_argument arg d0 of (r, d) \<Rightarrow>
        (case nm of
           FunctionRef _ \<Rightarrow> Inl InvalidFilterName
         | StringName n \<Rightarrow>
             if truthy (only (heap d r)) \<and> truthy (except (heap d r))
             then Inl ConflictingOptions
             else Inr (d\<lparr>heap := normalise r (heap d),
                         filters := filters d @ [\<lparr>name = n, stage = st, options = r\<rparr>]\<rparr>)))"

definition before :: "jsname \<Rightarrow> optarg \<Rightarrow> FilterDSL \<Rightarrow> error + FilterDSL" where
  "before nm arg d = filter_op nm Before arg d"

definition after :: "jsname \<Rightarrow> optarg \<Rightarrow> FilterDSL \<Rightarrow> error + FilterDSL" where
  "after nm arg d = filter_op nm After arg d"

subsection \<open>\<^verbatim>\<open>_skip\<close>, \<^verbatim>\<open>skipBefore\<close>, \<^verbatim>\<open>skipAfter\<close>\<close>

text \<open>lodash's \<^verbatim>\<open>findWhere(filters, { name, stage })\<close>: the first declaration whose
  \<^verbatim>\<open>name\<close> and \<^verbatim>\<open>stage\<close> are both identical to the given ones.\<close>

definition findWhere :: "filter_decl list \<Rightarrow> jsname \<Rightarrow> stage \<Rightarrow> filter_decl option" where
  "findWhere fs nm st = find (\<lambda>f. StringName (name f) = nm \<and> stage f = st) fs"

definition skip_op :: "jsname \<Rightarrow> stage \<Rightarrow> optarg \<Rightarrow> FilterDSL \<Rightarrow> error + FilterDSL" where
  "skip_op nm st arg d0 =
     (case options_argument arg d0 of (r, d) \<Rightarrow>
        (case findWhere (filters d) nm st of
           None \<Rightarrow> Inl UnknownFilter
         | Some f \<Rightarrow>
             let h = normalise r (heap d); t = options f in
             if length (items (only (h r))) > 0
             then Inr (d\<lparr>heap := h(t := (h t)\<lparr>except :=
                                     Arr (items (except (h t)) @ items (only (h r)))\<rparr>)\<rparr>)
             else if length (items (except (h r))) > 0
             then Inr (d\<lparr>heap := h(t := (h t)\<lparr>only :=
                                     Arr (items (only (h t)) @ items (except (h r)))\<rparr>)\<rparr>)
             else Inr (d\<lparr>heap := h(t := (h t)\<lparr>skip := True\<rparr>)\<rparr>)))"

definition skipBefore :: "jsname \<Rightarrow> optarg \<Rightarrow> FilterDSL \<Rightarrow> error + FilterDSL" where
  "skipBefore nm arg d = skip_op nm Before arg d"

definition skipAfter :: "jsname \<Rightarrow> optarg \<Rightarrow> FilterDSL \<Rightarrow> error + FilterDSL" where
  "skipAfter nm arg d = skip_op nm After arg d"

subsection \<open>Filter-declaration procedures\<close>

text \<open>
  A controller's \<^verbatim>\<open>filters()\<close> method is called with the DSL as \<^verbatim>\<open>this\<close>. It is modelled
  as the sequence of DSL calls it makes; an exception of one call ends the procedure.
  Each time the procedure is called its calls are evaluated anew, so an object literal
  in an argument is another object each time, while an \<open>Object n\<close> is the same.
\<close>

datatype dsl_call =
    CallBefore jsname optarg
  | CallAfter jsname optarg
  | CallSkipBefore jsname optarg
  | CallSkipAfter jsname optarg

fun call :: "dsl_call \<Rightarrow> FilterDSL \<Rightarrow> error + FilterDSL" where
  "call (CallBefore nm arg) d = before nm arg d"
| "call (CallAfter nm arg) d = after nm arg d"
| "call (CallSkipBefore nm arg) d = skipBefore nm arg d"
| "call (CallSkipAfter nm arg) d = skipAfter nm arg d"

fun run :: "dsl_call list \<Rightarrow> FilterDSL \<Rightarrow> error + FilterDSL" where
  "run [] d = Inr d"
| "run (c # cs) d = (case call c d of Inl e \<Rightarrow> Inl e | Inr d' \<Rightarrow> run cs d')"

text \<open>The declarations that a call makes when it succeeds.\<close>

fun declares :: "dsl_call \<Rightarrow> (string \<times> stage) list" where
  "declares (CallBefore (StringName n) arg) = [(n, Before)]"
| "declares (CallAfter (StringName n) arg) = [(n, After)]"
| "declares _ = []"

text \<open>
  Calls that cannot fail: a declaration by a string name whose options are omitted, or an
  object literal that does not hold both a truthy \<^verbatim>\<open>only\<close> and a truthy \<^verbatim>\<open>except\<close>.
\<close>

fun accepted :: "dsl_call \<Rightarrow> bool" where
  "accepted (CallBefore (StringName n) Omitted) = True"
| "accepted (CallBefore (StringName n) (Literal opts)) =
     (\<not> (truthy (only opts) \<and> truthy (except opts)))"
| "accepted (CallAfter (StringName n) Omitted) = True"
| "accepted (CallAfter (StringName n) (Literal opts)) =
     (\<not> (truthy (only opts) \<and> truthy (except opts)))"
| "accepted _ = False"

section \<open>The controller\<close>

text \<open>
  The repository holds two variants of the controller. The model follows the one with
  \<^verbatim>\<open>_executeHandlerChain\<close>, \<^verbatim>\<open>_executeHandler\<close>, \<^verbatim>\<open>strictAsyncMode\<close> and \<^verbatim>\<open>isResSent\<close>. The other
  variant has the same loop inlined in \<^verbatim>\<open>action\<close>, without strict mode, without the test of
  the response after a returned promise resolves, and with \<^verbatim>\<open>assert(this[actionName])\<close> in
  place of the \<^verbatim>\<open>hasOwnProperty\<close> test; \<^verbatim>\<open>_buildFilters\<close> and \<^verbatim>\<open>_filtersForAction\<close> are the same
  in both.
\<close>

subsection \<open>Handlers\<close>

text \<open>
  A filter or action method is user code. What the controller can observe of one
  invocation is: the function's declared parameter count and name; what it does before
  it returns (\<open>Send\<close>: it sends the response, so that \<^verbatim>\<open>res.headersSent\<close> is true;
  \<open>CallNext\<close>: it invokes the continuation trigger it was passed, with an error value
  or with nothing); and how the call ends: it throws a value of its own, it fails with a
  \<^verbatim>\<open>TypeError\<close> (it calls what is not a function), it returns a then-able, or it returns
  anything else. A returned then-able resolves, rejects or stays pending; the
  flag says whether the response has been sent while it was pending.

  A handler with three parameters or more that returns no then-able is waited for, and a
  trigger that it invokes later has the effect of one invoked before the return: it is
  listed in \<open>during_call\<close> as well.

  Not modelled: what a handler does after the promise that wraps it has settled, and
  a trigger invoked after a then-able was returned (its exception is thrown into the
  handler's own asynchronous code).
\<close>

datatype signal = Send | CallNext "nat option"

datatype settlement = Resolves | Rejects nat | NeverSettles

datatype completion =
    Throws nat | ThrowsTypeError | ReturnsPromise bool settlement | ReturnsValue

record handler =
  fname :: string
  arity :: nat
  during_call :: "signal list"
  completes :: completion

subsection \<open>Prototype chains\<close>

text \<open>
  A controller instance is created from a class built by \<^verbatim>\<open>extend\<close>; its prototype chain
  ends in \<^verbatim>\<open>Object.prototype\<close>. Each prototype has its own function-valued properties.
  The property \<^verbatim>\<open>filters\<close> is kept apart from the others (the first argument of \<open>Proto\<close>;
  the second does not hold that name), and \<^verbatim>\<open>Object.prototype\<close> has none of that name.
  Properties that are not functions are not modelled.
\<close>

datatype proto =
    ObjectPrototype "string \<Rightarrow> handler option"
  | Proto "dsl_call list option" "string \<Rightarrow> handler option" proto

text \<open>Property lookup along the chain: \<^verbatim>\<open>target.filters\<close> and \<^verbatim>\<open>this[handlerName]\<close>.\<close>

fun get_filters :: "proto \<Rightarrow> dsl_call list option" where
  "get_filters (ObjectPrototype ms) = None"
| "get_filters (Proto fs ms p) = (case fs of Some proc \<Rightarrow> Some proc | None \<Rightarrow> get_filters p)"

text \<open>
  The \<^verbatim>\<open>filters\<close> function when it is invoked as a handler, that is with \<^verbatim>\<open>req.context\<close> as
  \<^verbatim>\<open>this\<close>: it has no parameters, and its first DSL call fails, \<^verbatim>\<open>req.context\<close> having no
  method of the DSL.
\<close>

definition procedure_handler :: "dsl_call list \<Rightarrow> handler" where
  "procedure_handler proc =
     \<lparr>fname = ''filters'', arity = 0, during_call = [],
      completes = (if proc = [] then ReturnsValue else ThrowsTypeError)\<rparr>"

fun own :: "proto \<Rightarrow> string \<Rightarrow> handler option" where
  "own (ObjectPrototype ms) n = ms n"
| "own (Proto fs ms p) n =
     (if n = ''filters'' then map_option procedure_handler fs else ms n)"

fun get :: "proto \<Rightarrow> string \<Rightarrow> handler option" where
  "get (ObjectPrototype ms) n = own (ObjectPrototype ms) n"
| "get (Proto fs ms p) n =
     (case own (Proto fs ms p) n of Some h \<Rightarrow> Some h | None \<Rightarrow> get p n)"

fun hasOwnProperty :: "proto \<Rightarrow> string \<Rightarrow> bool" where
  "hasOwnProperty p n = (own p n \<noteq> None)"

subsection \<open>\<^verbatim>\<open>_buildFilters\<close>\<close>

text \<open>
  The \<^verbatim>\<open>while\<close> loop: \<open>walk target chain\<close>. When \<open>target\<close> is \<^verbatim>\<open>Object.prototype\<close> itself the
  loop steps to \<^verbatim>\<open>null\<close> and \<^verbatim>\<open>prototypeOf(null)\<close> throws.
\<close>

fun walk :: "proto \<Rightarrow> proto list \<Rightarrow> error + proto list" where
  "walk (ObjectPrototype ms) chain = Inl TypeError"
| "walk (Proto fs ms (ObjectPrototype ms')) chain = Inr chain"
| "walk (Proto fs ms (Proto fs' ms' p)) chain =
     walk (Proto fs' ms' p)
       (if get_filters (Proto fs ms (Proto fs' ms' p)) \<noteq> None
        then chain @ [Proto fs ms (Proto fs' ms' p)] else chain)"

text \<open>\<^verbatim>\<open>forEach((proto) => { proto.filters.call(dsl); })\<close>. A prototype that inherits
  \<^verbatim>\<open>filters\<close> is in the chain as well, so the inherited procedure is called for it and
  again for the prototype that defines it; \<open>run\<close> evaluates its calls each time.\<close>

fun forEach :: "proto list \<Rightarrow> FilterDSL \<Rightarrow> error + FilterDSL" where
  "forEach [] d = Inr d"
| "forEach (p # ps) d =
     (case get_filters p of
        None \<Rightarrow> Inl TypeError
      | Some proc \<Rightarrow> (case run proc d of Inl e \<Rightarrow> Inl e | Inr d' \<Rightarrow> forEach ps d'))"

text \<open>\<open>buildFilters p objs\<close>: \<open>p\<close> is \<^verbatim>\<open>prototypeOf(this)\<close>, \<open>objs\<close> the options objects
  that the filter-declaration procedures pass.\<close>

definition buildFilters :: "proto \<Rightarrow> (nat \<Rightarrow> options) \<Rightarrow> error + FilterDSL" where
  "buildFilters p objs =
     (case walk p [] of
        Inl e \<Rightarrow> Inl e
      | Inr chain \<Rightarrow> forEach (rev chain) (init objs))"

text \<open>
  \<open>procedure_order\<close> lists, from the most ancestral level down to the level of the
  instance, the \<^verbatim>\<open>filters\<close> procedure that each level has. A level that does not define
  \<^verbatim>\<open>filters\<close> itself has the one it inherits, so that procedure is listed again. The
  last prototype before \<^verbatim>\<open>Object.prototype\<close> is not looked at. The list is compared with
  \<open>buildFilters\<close> in \<open>buildFilters_order\<close>.
\<close>

fun procedure_order :: "proto \<Rightarrow> dsl_call list list" where
  "procedure_order (ObjectPrototype ms) = []"
| "procedure_order (Proto fs ms (ObjectPrototype ms')) = []"
| "procedure_order (Proto fs ms (Proto fs' ms' p)) =
     procedure_order (Proto fs' ms' p) @
     (case get_filters (Proto fs ms (Proto fs' ms' p)) of None \<Rightarrow> [] | Some proc \<Rightarrow> [proc])"

record controller =
  prototype :: proto
  strictAsyncMode :: bool
  registry :: FilterDSL

text \<open>\<^verbatim>\<open>init()\<close> of the controller; \<open>registry\<close> is \<^verbatim>\<open>this._filters\<close>.\<close>

definition new :: "proto \<Rightarrow> bool \<Rightarrow> (nat \<Rightarrow> options) \<Rightarrow> error + controller" where
  "new p strict objs =
     (case buildFilters p objs of
        Inl e \<Rightarrow> Inl e
      | Inr d \<Rightarrow> Inr \<lparr>prototype = p, strictAsyncMode = strict, registry = d\<rparr>)"

subsection \<open>\<^verbatim>\<open>_filtersForAction\<close> and \<^verbatim>\<open>_buildHandlers\<close>\<close>

definition applies :: "FilterDSL \<Rightarrow> string \<Rightarrow> stage \<Rightarrow> filter_decl \<Rightarrow> bool" where
  "applies d actionName st f =
     (let opts = heap d (options f) in
      stage f = st \<and>
      \<not> skip opts \<and>
      actionName \<notin> set (items (except opts)) \<and>
      (length (items (only opts)) = 0 \<or> actionName \<in> set (items (only opts))))"

definition filtersForAction :: "FilterDSL \<Rightarrow> string \<Rightarrow> stage \<Rightarrow> string list" where
  "filtersForAction d actionName st = map name (filter (applies d actionName st) (filters d))"

definition buildHandlers :: "controller \<Rightarrow> string \<Rightarrow> string list" where
  "buildHandlers c actionName =
     filtersForAction (registry c) actionName Before @ [actionName] @
     filtersForAction (registry c) actionName After"

subsection \<open>\<^verbatim>\<open>_executeHandler\<close>\<close>

text \<open>
  A promise is pending, fulfilled or rejected, and settles once: \<open>resolve\<close> and
  \<open>reject\<close> change a pending promise only, and an exception that leaves the executor
  function of \<^verbatim>\<open>new Promise\<close> rejects the promise in the same way.
\<close>

datatype promise = Pending | Fulfilled | Rejected error

text \<open>
  The state of one dispatch. \<open>outer\<close>, \<open>handlerReturnedPromise\<close> and
  \<open>handlerCalledNext\<close> are the locals of \<^verbatim>\<open>_executeHandler\<close>; \<open>headersSent\<close> is
  \<^verbatim>\<open>res.headersSent\<close>; \<open>nextCalls\<close> records each call of the framework's \<^verbatim>\<open>next\<close>
  with its argument (\<open>None\<close>: no argument); \<open>invoked\<close> records the names of the handlers
  that have been invoked.
\<close>

record exec =
  outer :: promise
  handlerReturnedPromise :: bool
  handlerCalledNext :: bool
  headersSent :: bool
  nextCalls :: "error option list"
  invoked :: "string list"

definition resolve :: "exec \<Rightarrow> exec" where
  "resolve s = (if outer s = Pending then s\<lparr>outer := Fulfilled\<rparr> else s)"

definition reject :: "error \<Rightarrow> exec \<Rightarrow> exec" where
  "reject e s = (if outer s = Pending then s\<lparr>outer := Rejected e\<rparr> else s)"

definition isResSent :: "exec \<Rightarrow> bool" where
  "isResSent s = headersSent s"

text \<open>The faked \<^verbatim>\<open>next\<close> handed to the handler. The first component of the result is the
  exception it throws, if any.\<close>

definition fake_next :: "string \<Rightarrow> nat option \<Rightarrow> exec \<Rightarrow> error option \<times> exec" where
  "fake_next actionName err s0 =
     (let s = s0\<lparr>handlerCalledNext := True\<rparr> in
      if handlerReturnedPromise s then (Some (DualCompletionError actionName), s)
      else (case err of
              Some e \<Rightarrow> (None, reject (HandlerError e) s)
            | None \<Rightarrow> (let s1 = reject CancellationError s
                       in (None, s1\<lparr>nextCalls := nextCalls s1 @ [None]\<rparr>))))"

text \<open>The body of the handler up to its return; an exception of the trigger is not
  caught by the handler.\<close>

fun invoke :: "string \<Rightarrow> signal list \<Rightarrow> exec \<Rightarrow> error option \<times> exec" where
  "invoke actionName [] s = (None, s)"
| "invoke actionName (Send # sigs) s = invoke actionName sigs (s\<lparr>headersSent := True\<rparr>)"
| "invoke actionName (CallNext err # sigs) s =
     (case fake_next actionName err s of
        (Some e, s') \<Rightarrow> (Some e, s')
      | (None, s') \<Rightarrow> invoke actionName sigs s')"

text \<open>\<^verbatim>\<open>result.then(() => { if (this.isResSent(res)) reject(cancel) else resolve() }).catch(reject)\<close>\<close>

fun link :: "bool \<Rightarrow> settlement \<Rightarrow> exec \<Rightarrow> exec" where
  "link sent NeverSettles s = s\<lparr>headersSent := headersSent s \<or> sent\<rparr>"
| "link sent (Rejects e) s = reject (HandlerError e) (s\<lparr>headersSent := headersSent s \<or> sent\<rparr>)"
| "link sent Resolves s =
     (let s1 = s\<lparr>headersSent := headersSent s \<or> sent\<rparr>
      in if isResSent s1 then reject CancellationError s1 else resolve s1)"

definition executeHandler :: "bool \<Rightarrow> string \<Rightarrow> handler \<Rightarrow> exec \<Rightarrow> exec" where
  "executeHandler strict actionName h s0 =
     (let s = s0\<lparr>outer := Pending, handlerReturnedPromise := False, handlerCalledNext := False\<rparr>
      in case invoke actionName (during_call h) s of
           (Some e, s1) \<Rightarrow> reject e s1
         | (None, s1) \<Rightarrow>
             (case completes h of
                Throws e \<Rightarrow> reject (HandlerError e) s1
              | ThrowsTypeError \<Rightarrow> reject TypeError s1
              | ReturnsPromise sent settle \<Rightarrow>
                  (let s2 = s1\<lparr>handlerReturnedPromise := True\<rparr>
                   in if handlerCalledNext s2
                      then reject (DualCompletionError actionName) s2
                      else link sent settle s2)
              | ReturnsValue \<Rightarrow>
                  if arity h < 3
                  then if strict
                       then reject (MissingCompletionSignal (fname h)) s1
                       else if isResSent s1 then reject CancellationError s1 else resolve s1
                  else s1))"

subsection \<open>\<^verbatim>\<open>_executeHandlerChain\<close> and \<^verbatim>\<open>action\<close>\<close>

text \<open>
  \<^verbatim>\<open>handlerChain.each(...)\<close>: the handlers run one after the other, each after the promise
  of the one before is fulfilled. The first component of the result is the promise that
  \<^verbatim>\<open>each\<close> returns: rejected with the first rejection, pending when a handler's promise
  stays pending.
\<close>

fun each :: "controller \<Rightarrow> string \<Rightarrow> string list \<Rightarrow> exec \<Rightarrow> promise \<times> exec" where
  "each c actionName [] s = (Fulfilled, s)"
| "each c actionName (handlerName # rest) s =
     (case get (prototype c) handlerName of
        None \<Rightarrow> (Rejected (UndefinedFilter handlerName), s)
      | Some h \<Rightarrow>
          (let s' = executeHandler (strictAsyncMode c) actionName h
                      (s\<lparr>invoked := invoked s @ [handlerName]\<rparr>)
           in case outer s' of
                Fulfilled \<Rightarrow> each c actionName rest s'
              | Rejected e \<Rightarrow> (Rejected e, s')
              | Pending \<Rightarrow> (Pending, s')))"

text \<open>
  The \<^verbatim>\<open>then\<close> and the two \<^verbatim>\<open>catch\<close> handlers that follow \<^verbatim>\<open>each\<close>. The promise of the
  result is the one the \<^verbatim>\<open>catch\<close> handlers are attached to: fulfilled when every handler
  ran and the response is sent, rejected with \<open>CancellationError\<close> when the rest was
  skipped, rejected with another error when the dispatch failed.
\<close>

definition executeHandlerChain ::
    "controller \<Rightarrow> string \<Rightarrow> string list \<Rightarrow> exec \<Rightarrow> promise \<times> exec" where
  "executeHandlerChain c actionName handlers s0 =
     (case each c actionName handlers s0 of (p, s) \<Rightarrow>
        (let p' = (case p of
                     Fulfilled \<Rightarrow> if \<not> isResSent s
                                  then Rejected (IncompleteActionError actionName)
                                  else Fulfilled
                   | _ \<Rightarrow> p)
         in case p' of
              Rejected CancellationError \<Rightarrow> (p', s\<lparr>nextCalls := nextCalls s @ [None]\<rparr>)
            | Rejected err \<Rightarrow> (p', s\<lparr>nextCalls := nextCalls s @ [Some err]\<rparr>)
            | _ \<Rightarrow> (p', s)))"

text \<open>The middleware function of \<^verbatim>\<open>action(actionName)\<close>; \<open>Inl\<close> is an exception thrown
  to the caller of the middleware.\<close>

definition action :: "controller \<Rightarrow> string \<Rightarrow> exec \<Rightarrow> error + promise \<times> exec" where
  "action c actionName s =
     (if \<not> hasOwnProperty (prototype c) actionName
      then Inl (UndefinedAction actionName)
      else Inr (executeHandlerChain c actionName (buildHandlers c actionName) s))"

text \<open>The state in which a dispatch starts.\<close>

definition request :: "bool \<Rightarrow> exec" where
  "request sent =
     \<lparr>outer = Pending, handlerReturnedPromise = False, handlerCalledNext = False,
      headersSent = sent, nextCalls = [], invoked = []\<rparr>"

section \<open>Registries that the DSL can produce\<close>

text \<open>
  A registry starts empty (\<open>init\<close>) and changes by DSL calls only. \<open>reachable\<close> are the
  states so produced, from any objects of the caller.
\<close>

inductive reachable :: "FilterDSL \<Rightarrow> bool" where
  reachable_init: "reachable (init objs)"
| reachable_call: "reachable d \<Longrightarrow> call c d = Inr d' \<Longrightarrow> reachable d'"

text \<open>
  \<open>well_formed\<close>: the options object of every declaration holds arrays, no two declarations
  share their options object, and the objects of the default parameter in use have
  been created.
\<close>

definition well_formed :: "FilterDSL \<Rightarrow> bool" where
  "well_formed d \<longleftrightarrow>
     (\<forall>f \<in> set (filters d).
        (\<exists>xs. only (heap d (options f)) = Arr xs) \<and>
        (\<exists>ys. except (heap d (options f)) = Arr ys)) \<and>
     distinct (map options (filters d)) \<and>
     (\<forall>f \<in> set (filters d). \<forall>k. options f = Created k \<longrightarrow> k < allocated d)"

text \<open>What a declaration says in a given registry, and the options object a DSL call
  receives.\<close>

definition only_of :: "FilterDSL \<Rightarrow> filter_decl \<Rightarrow> string list" where
  "only_of d f = items (only (heap d (options f)))"

definition except_of :: "FilterDSL \<Rightarrow> filter_decl \<Rightarrow> string list" where
  "except_of d f = items (except (heap d (options f)))"

definition skipped :: "FilterDSL \<Rightarrow> filter_decl \<Rightarrow> bool" where
  "skipped d f = skip (heap d (options f))"

fun supplied :: "optarg \<Rightarrow> FilterDSL \<Rightarrow> options" where
  "supplied Omitted d = \<lparr>only = Undefined, except = Undefined, skip = False\<rparr>"
| "supplied (Literal opts) d = opts"
| "supplied (Object n) d = heap d (Caller n)"

section \<open>Examples\<close>

subsection \<open>Options objects and registries\<close>

definition no_objects :: "nat \<Rightarrow> options" where
  "no_objects = (\<lambda>_. \<lparr>only = Undefined, except = Undefined, skip = False\<rparr>)"

text \<open>\<^verbatim>\<open>{ only: 'index' }\<close>, \<^verbatim>\<open>{ only: ['show'] }\<close> and \<^verbatim>\<open>{ only: ['index'], except: ['show'] }\<close>\<close>

definition objects :: "nat \<Rightarrow> options" where
  "objects = no_objects
     (0 := \<lparr>only = Str ''index'', except = Undefined, skip = False\<rparr>,
      1 := \<lparr>only = Arr [''show''], except = Undefined, skip = False\<rparr>,
      2 := \<lparr>only = Arr [''index''], except = Arr [''show''], skip = False\<rparr>)"

text \<open>\<^verbatim>\<open>this.before('auth'); this.before('auth');\<close>\<close>

definition declared_twice :: FilterDSL where
  "declared_twice = projr (run [CallBefore (StringName ''auth'') Omitted,
                                CallBefore (StringName ''auth'') Omitted] (init no_objects))"

text \<open>\<^verbatim>\<open>this.before('auth');\<close>\<close>

definition declared_once :: FilterDSL where
  "declared_once = projr (run [CallBefore (StringName ''auth'') Omitted] (init objects))"

text \<open>\<^verbatim>\<open>this.before('auth', { only: 'index' }); this.skipBefore('auth', { only: ['show'] });\<close>\<close>

definition narrowed_by_skip :: "error + FilterDSL" where
  "narrowed_by_skip =
     run [CallBefore (StringName ''auth'') (Object 0),
          CallSkipBefore (StringName ''auth'') (Object 1)] (init objects)"

text \<open>\<^verbatim>\<open>this.before('auth'); this.skipBefore('auth', { only: ['index'], except: ['show'] });\<close>\<close>

definition skipped_with_both :: "error + FilterDSL" where
  "skipped_with_both =
     run [CallBefore (StringName ''auth'') Omitted,
          CallSkipBefore (StringName ''auth'') (Object 2)] (init objects)"

text \<open>\<^verbatim>\<open>this.before('auth', { only: '', except: 'show' });\<close>\<close>

definition declared_with_empty_string :: "error + FilterDSL" where
  "declared_with_empty_string =
     run [CallBefore (StringName ''auth'') (Object 0)]
       (init (no_objects(0 := \<lparr>only = Str [], except = Str ''show'', skip = False\<rparr>)))"

subsection \<open>Controllers\<close>

text \<open>The base classes: \<^verbatim>\<open>Controller.prototype\<close>, \<^verbatim>\<open>CoreObject.prototype\<close> and
  \<^verbatim>\<open>Object.prototype\<close>, without the methods that no example uses as a handler.\<close>

definition base :: proto where
  "base = Proto None Map.empty (Proto None Map.empty (ObjectPrototype Map.empty))"

text \<open>\<^verbatim>\<open>create(req, res, next) { next(); }\<close>\<close>

definition calls_next :: handler where
  "calls_next =
     \<lparr>fname = ''create'', arity = 3, during_call = [CallNext None], completes = ReturnsValue\<rparr>"

definition skipping :: controller where
  "skipping =
     \<lparr>prototype = Proto None [''create'' \<mapsto> calls_next] base,
      strictAsyncMode = True, registry = init no_objects\<rparr>"

definition skipping_dispatch :: "error + promise \<times> exec" where
  "skipping_dispatch = action skipping ''create'' (request False)"

text \<open>\<^verbatim>\<open>create(req, res) { res.json({}); }\<close>, under the default strict mode.\<close>

definition responds :: handler where
  "responds = \<lparr>fname = ''create'', arity = 2, during_call = [Send], completes = ReturnsValue\<rparr>"

definition responding :: controller where
  "responding =
     \<lparr>prototype = Proto None [''create'' \<mapsto> responds] base,
      strictAsyncMode = True, registry = init no_objects\<rparr>"

definition responding_dispatch :: "error + promise \<times> exec" where
  "responding_dispatch = action responding ''create'' (request False)"

text \<open>A controller with \<^verbatim>\<open>strictAsyncMode: false\<close>, the filter \<^verbatim>\<open>log(req, res) { }\<close> and the
  action above.\<close>

definition logs :: handler where
  "logs = \<lparr>fname = ''log'', arity = 2, during_call = [], completes = ReturnsValue\<rparr>"

definition relaxed :: controller where
  "relaxed =
     \<lparr>prototype = Proto None [''log'' \<mapsto> logs, ''create'' \<mapsto> responds] base,
      strictAsyncMode = False, registry = init no_objects\<rparr>"

text \<open>
  \<^verbatim>\<open>auth(req, res) { return Promise.resolve(); }\<close> and
  \<^verbatim>\<open>create(req, res) { return save().then(() => { res.json({}); }); }\<close>
\<close>

definition auth :: handler where
  "auth = \<lparr>fname = ''auth'', arity = 2, during_call = [],
            completes = ReturnsPromise False Resolves\<rparr>"

definition saves :: handler where
  "saves = \<lparr>fname = ''create'', arity = 2, during_call = [],
             completes = ReturnsPromise True Resolves\<rparr>"

definition guarded :: controller where
  "guarded =
     \<lparr>prototype = Proto None [''auth'' \<mapsto> auth, ''create'' \<mapsto> saves] base,
      strictAsyncMode = True, registry = init no_objects\<rparr>"

text \<open>\<^verbatim>\<open>create(req, res) { return Promise.resolve(); }\<close>: the action never responds.\<close>

definition silent :: controller where
  "silent =
     \<lparr>prototype = Proto None [''create'' \<mapsto> auth\<lparr>fname := ''create''\<rparr>] base,
      strictAsyncMode = True, registry = init no_objects\<rparr>"

text \<open>\<^verbatim>\<open>create(req, res, next) { next(err); return promise; }\<close>\<close>

definition signals_twice :: handler where
  "signals_twice =
     \<lparr>fname = ''create'', arity = 3, during_call = [CallNext (Some 7)],
      completes = ReturnsPromise False Resolves\<rparr>"

definition dual :: controller where
  "dual =
     \<lparr>prototype = Proto None [''create'' \<mapsto> signals_twice] base,
      strictAsyncMode = True, registry = init no_objects\<rparr>"

definition dual_dispatch :: "error + promise \<times> exec" where
  "dual_dispatch = action dual ''create'' (request False)"

text \<open>
  \<^verbatim>\<open>filters() { this.before('auth'); this.before('missing'); }\<close> where \<^verbatim>\<open>auth\<close> throws and
  no method \<^verbatim>\<open>missing\<close> exists.
\<close>

definition throws :: handler where
  "throws = \<lparr>fname = ''auth'', arity = 2, during_call = [], completes = Throws 1\<rparr>"

definition broken_proto :: proto where
  "broken_proto =
     Proto (Some [CallBefore (StringName ''auth'') Omitted,
                  CallBefore (StringName ''missing'') Omitted])
           [''auth'' \<mapsto> throws, ''create'' \<mapsto> saves] base"

definition broken :: controller where
  "broken = projr (new broken_proto True no_objects)"

definition broken_dispatch :: "error + promise \<times> exec" where
  "broken_dispatch = action broken ''create'' (request False)"

text \<open>
  \<^verbatim>\<open>filters() { this.before('auth'); this.before('missing'); }\<close> where \<^verbatim>\<open>auth\<close> returns a
  promise that resolves, and the same where \<^verbatim>\<open>auth(req, res, next) { next(); }\<close> skips.
\<close>

definition reaching_proto :: proto where
  "reaching_proto =
     Proto (Some [CallBefore (StringName ''auth'') Omitted,
                  CallBefore (StringName ''missing'') Omitted])
           [''auth'' \<mapsto> auth, ''create'' \<mapsto> saves] base"

definition reaching :: controller where
  "reaching = projr (new reaching_proto True no_objects)"

definition bypassing_proto :: proto where
  "bypassing_proto =
     Proto (Some [CallBefore (StringName ''auth'') Omitted,
                  CallBefore (StringName ''missing'') Omitted])
           [''auth'' \<mapsto> calls_next\<lparr>fname := ''auth''\<rparr>, ''create'' \<mapsto> saves] base"

definition bypassing :: controller where
  "bypassing = projr (new bypassing_proto True no_objects)"

text \<open>A subclass that defines nothing, of a class that defines the action.\<close>

definition inheriting :: controller where
  "inheriting =
     \<lparr>prototype = Proto None Map.empty (Proto None [''create'' \<mapsto> saves] base),
      strictAsyncMode = True, registry = init no_objects\<rparr>"

text \<open>
  \<^verbatim>\<open>ApplicationController\<close> with \<^verbatim>\<open>filters() { this.before('authenticate'); this.after('log'); }\<close>
  and its subclass \<^verbatim>\<open>BooksController\<close> with
  \<^verbatim>\<open>filters() { this.before('load'); this.after('notify'); }\<close>. Every filter and the action
  \<^verbatim>\<open>create\<close> return a promise that resolves; none sends the response.
\<close>

definition application_proto :: proto where
  "application_proto =
     Proto (Some [CallBefore (StringName ''authenticate'') Omitted,
                  CallAfter (StringName ''log'') Omitted])
           [''authenticate'' \<mapsto> auth, ''log'' \<mapsto> auth] base"

definition books_proto :: proto where
  "books_proto =
     Proto (Some [CallBefore (StringName ''load'') Omitted,
                  CallAfter (StringName ''notify'') Omitted])
           [''load'' \<mapsto> auth, ''notify'' \<mapsto> auth, ''create'' \<mapsto> auth]
           application_proto"

definition books :: controller where
  "books = projr (new books_proto True no_objects)"

text \<open>
  A class with \<^verbatim>\<open>filters() { this.before('auth', { only: 'index' }); }\<close> and a subclass that
  defines the action \<^verbatim>\<open>index\<close> and no \<^verbatim>\<open>filters\<close>.
\<close>

definition members_proto :: proto where
  "members_proto =
     Proto (Some [CallBefore (StringName ''auth'')
                    (Literal \<lparr>only = Str ''index'', except = Undefined, skip = False\<rparr>)])
           [''auth'' \<mapsto> auth] base"

definition posts_proto :: proto where
  "posts_proto = Proto None [''index'' \<mapsto> saves] members_proto"

definition posts :: controller where
  "posts = projr (new posts_proto True no_objects)"

text \<open>
  The same class, but with the options held in a constant that every call of \<^verbatim>\<open>filters\<close>
  passes: \<^verbatim>\<open>const opts = { only: 'index' }; ... filters() { this.before('auth', opts); }\<close>
\<close>

definition sharing_proto :: proto where
  "sharing_proto =
     Proto None [''index'' \<mapsto> saves]
       (Proto (Some [CallBefore (StringName ''auth'') (Object 0)]) [''auth'' \<mapsto> auth] base)"

section \<open>Properties of the filter DSL\<close>

subsection \<open>Evaluation and basic facts\<close>

lemmas eval_defs =
  run.simps call.simps before_def after_def skipBefore_def skipAfter_def filter_op_def
  skip_op_def findWhere_def normalise_def init_def objects_def no_objects_def only_of_def
  except_of_def skipped_def applies_def Let_def

lemma normalise_other: "r' \<noteq> r \<Longrightarrow> normalise r h r' = h r'"
  by (simp add: normalise_def)

lemma normalise_same:
  "normalise r h r =
     \<lparr>only = Arr (ensureArray (only (h r))), except = Arr (ensureArray (except (h r))),
      skip = skip (h r)\<rparr>"
  by (simp add: normalise_def)

text \<open>Normalising twice changes nothing: an object that holds arrays is left as it is.\<close>

lemma normalise_arrays:
  "only (h r') = Arr xs \<Longrightarrow> except (h r') = Arr ys \<Longrightarrow> normalise r h r' = h r'"
  by (cases "r' = r") (simp_all add: normalise_def)

lemma options_argument_filters: "options_argument arg d0 = (r, d) \<Longrightarrow> filters d = filters d0"
  by (cases arg) auto

lemma options_argument_supplied: "options_argument arg d0 = (r, d) \<Longrightarrow> heap d r = supplied arg d0"
  by (cases arg) auto

lemma findWhere_mem:
  "findWhere fs nm st = Some f \<Longrightarrow> f \<in> set fs \<and> StringName (name f) = nm \<and> stage f = st"
  by (auto simp: findWhere_def find_Some_iff)

subsection \<open>The invariant of reachable registries\<close>

lemma well_formed_init: "well_formed (init objs)"
  by (simp add: well_formed_def init_def)

lemma well_formed_fresh:
  assumes "well_formed d" and "f \<in> set (filters d)"
  shows "options f \<noteq> Created (allocated d)"
proof
  assume "options f = Created (allocated d)"
  with assms have "allocated d < allocated d" unfolding well_formed_def by blast
  then show False by simp
qed

lemma options_argument_heap:
  "options_argument arg d0 = (r, d) \<Longrightarrow> well_formed d0 \<Longrightarrow> f \<in> set (filters d0) \<Longrightarrow>
   heap d (options f) = heap d0 (options f)"
  by (cases arg) (auto dest: well_formed_fresh)

lemma options_argument_well_formed:
  assumes "options_argument arg d0 = (r, d)" and "well_formed d0"
  shows "well_formed d"
proof (cases "\<exists>n. arg = Object n")
  case True
  with assms show ?thesis by auto
next
  case False
  with assms(1) obtain opts where
    d: "d = d0\<lparr>heap := (heap d0)(Created (allocated d0) := opts),
                  allocated := Suc (allocated d0)\<rparr>"
    by (cases arg) auto
  have "\<forall>f \<in> set (filters d0). heap d (options f) = heap d0 (options f)"
    using well_formed_fresh[OF assms(2)] by (simp add: d)
  moreover have "filters d = filters d0" "allocated d = Suc (allocated d0)" by (simp_all add: d)
  ultimately show ?thesis using assms(2) unfolding well_formed_def
    by (auto simp: less_Suc_eq)
qed

text \<open>
  A declaration can only be appended with an options object that no earlier declaration
  holds: the object of an earlier declaration has arrays in both properties, and two
  arrays are both truthy, so \<^verbatim>\<open>_filter\<close> throws.
\<close>

lemma well_formed_filter_op:
  assumes "well_formed d0" and "filter_op nm st arg d0 = Inr d'"
  shows "well_formed d'"
proof -
  obtain r d where rd: "options_argument arg d0 = (r, d)" by (cases "options_argument arg d0")
  have wfd: "well_formed d" using rd assms(1) by (rule options_argument_well_formed)
  from assms(2) rd obtain n where nm: "nm = StringName n"
    and nt: "\<not> (truthy (only (heap d r)) \<and> truthy (except (heap d r)))"
    and d': "d' = d\<lparr>heap := normalise r (heap d),
                     filters := filters d @ [\<lparr>name = n, stage = st, options = r\<rparr>]\<rparr>"
    by (auto simp: filter_op_def split: jsname.splits if_splits)
  have fresh: "r \<notin> options ` set (filters d)"
  proof
    assume "r \<in> options ` set (filters d)"
    then obtain f where "f \<in> set (filters d)" "options f = r" by auto
    with wfd have "truthy (only (heap d r)) \<and> truthy (except (heap d r))"
      by (auto simp: well_formed_def)
    with nt show False by simp
  qed
  have alloc: "\<forall>k. r = Created k \<longrightarrow> k < allocated d"
    using rd by (cases arg) auto
  show ?thesis
    using wfd fresh alloc unfolding d' well_formed_def
    by (auto simp: normalise_same normalise_other image_iff)
qed

lemma skip_op_filters: "skip_op nm st arg d0 = Inr d' \<Longrightarrow> filters d' = filters d0"
  by (cases arg) (auto simp: skip_op_def Let_def split: option.splits if_splits)

lemma skip_op_allocated: "skip_op nm st arg d0 = Inr d' \<Longrightarrow> allocated d0 \<le> allocated d'"
  by (cases arg) (auto simp: skip_op_def Let_def split: option.splits if_splits)

lemma skip_op_arrays:
  assumes "skip_op nm st arg d0 = Inr d'"
    and "only (heap d0 q) = Arr xs" and "except (heap d0 q) = Arr ys"
    and "\<forall>k. q = Created k \<longrightarrow> k < allocated d0"
  shows "(\<exists>xs. only (heap d' q) = Arr xs) \<and> (\<exists>ys. except (heap d' q) = Arr ys)"
  using assms
  by (cases arg) (auto simp: skip_op_def Let_def normalise_def split: option.splits if_splits)

lemma well_formed_skip_op:
  assumes "well_formed d0" and "skip_op nm st arg d0 = Inr d'"
  shows "well_formed d'"
  unfolding well_formed_def
proof (intro conjI ballI allI impI)
  fix f assume f: "f \<in> set (filters d')"
  then have f0: "f \<in> set (filters d0)" using assms(2) by (simp add: skip_op_filters)
  with assms(1) obtain xs ys where
    "only (heap d0 (options f)) = Arr xs" "except (heap d0 (options f)) = Arr ys"
    and "\<forall>k. options f = Created k \<longrightarrow> k < allocated d0"
    by (auto simp: well_formed_def)
  with skip_op_arrays[OF assms(2)]
  show "\<exists>xs. only (heap d' (options f)) = Arr xs" "\<exists>ys. except (heap d' (options f)) = Arr ys"
    by blast+
next
  show "distinct (map options (filters d'))"
    using assms by (simp add: skip_op_filters well_formed_def)
next
  fix f k assume "f \<in> set (filters d')" "options f = Created k"
  then have "k < allocated d0" using assms by (auto simp: skip_op_filters well_formed_def)
  with skip_op_allocated[OF assms(2)] show "k < allocated d'" by simp
qed

lemma well_formed_call: "well_formed d \<Longrightarrow> call c d = Inr d' \<Longrightarrow> well_formed d'"
  by (cases c) (auto simp: before_def after_def skipBefore_def skipAfter_def
      intro: well_formed_filter_op well_formed_skip_op)

lemma reachable_well_formed: "reachable d \<Longrightarrow> well_formed d"
  by (induction rule: reachable.induct) (auto intro: well_formed_init well_formed_call)

text \<open>In particular the properties that \<open>items\<close> reads are arrays.\<close>

lemma reachable_arrays:
  "reachable d \<Longrightarrow> f \<in> set (filters d) \<Longrightarrow>
   only (heap d (options f)) = Arr (only_of d f) \<and> except (heap d (options f)) = Arr (except_of d f)"
  by (drule reachable_well_formed) (auto simp: well_formed_def only_of_def except_of_def)

lemma reachable_run: "reachable d \<Longrightarrow> run cs d = Inr d' \<Longrightarrow> reachable d'"
proof (induction cs arbitrary: d)
  case Nil
  then show ?case by simp
next
  case (Cons c cs)
  then show ?case by (auto split: sum.splits intro: reachable_call)
qed

subsection \<open>The example registries\<close>

lemma run_twice:
  "run [CallBefore (StringName ''auth'') Omitted,
        CallBefore (StringName ''auth'') Omitted] (init no_objects) = Inr declared_twice"
  by (simp add: declared_twice_def eval_defs)

lemma reachable_declared_twice: "reachable declared_twice"
  using reachable_init run_twice by (rule reachable_run)

lemma twice_filters:
  "filters declared_twice =
     [\<lparr>name = ''auth'', stage = Before, options = Created 0\<rparr>,
      \<lparr>name = ''auth'', stage = Before, options = Created 1\<rparr>]"
  by (simp add: declared_twice_def eval_defs)

lemma twice_heap:
  "heap declared_twice (Created 0) = \<lparr>only = Arr [], except = Arr [], skip = False\<rparr>"
  "heap declared_twice (Created (Suc 0)) = \<lparr>only = Arr [], except = Arr [], skip = False\<rparr>"
  by (simp_all add: declared_twice_def eval_defs)

lemma twice_allocated: "allocated declared_twice = 2"
  by (simp add: declared_twice_def eval_defs)

lemma twice_skip:
  "skip_op (StringName ''auth'') Before Omitted declared_twice
     = Inr (projr (skip_op (StringName ''auth'') Before Omitted declared_twice))"
  by (simp add: skip_op_def findWhere_def twice_filters Let_def normalise_def)

lemma twice_skip_heap:
  "heap (projr (skip_op (StringName ''auth'') Before Omitted declared_twice)) (Created 0)
     = \<lparr>only = Arr [], except = Arr [], skip = True\<rparr>"
  by (simp add: skip_op_def findWhere_def twice_filters twice_allocated twice_heap Let_def
      normalise_def)

lemma run_once:
  "run [CallBefore (StringName ''auth'') Omitted] (init objects) = Inr declared_once"
  by (simp add: declared_once_def eval_defs)

lemma reachable_declared_once: "reachable declared_once"
  using reachable_init run_once by (rule reachable_run)

lemma once_filters:
  "filters declared_once = [\<lparr>name = ''auth'', stage = Before, options = Created 0\<rparr>]"
  by (simp add: declared_once_def eval_defs)

lemma once_heap:
  "heap declared_once (Created 0) = \<lparr>only = Arr [], except = Arr [], skip = False\<rparr>"
  "heap declared_once (Caller (Suc 0))
     = \<lparr>only = Arr [''show''], except = Undefined, skip = False\<rparr>"
  by (simp_all add: declared_once_def eval_defs)

subsection \<open>Declarations: \<^verbatim>\<open>only\<close> and \<^verbatim>\<open>except\<close> exclude each other when declared\<close>

lemma filter_op_conflict:
  "truthy (only (supplied arg d)) \<Longrightarrow> truthy (except (supplied arg d)) \<Longrightarrow>
   filter_op (StringName n) st arg d = Inl ConflictingOptions"
  by (cases arg) (simp_all add: filter_op_def)

lemma filter_op_appends:
  assumes "filter_op nm st arg d0 = Inr d'"
  shows "\<exists>f. filters d' = filters d0 @ [f] \<and> StringName (name f) = nm \<and> stage f = st \<and>
           \<not> (truthy (only (supplied arg d0)) \<and> truthy (except (supplied arg d0))) \<and>
           only_of d' f = ensureArray (only (supplied arg d0)) \<and>
           except_of d' f = ensureArray (except (supplied arg d0))"
  using assms
  by (cases arg)
     (auto simp: filter_op_def only_of_def except_of_def normalise_same
           split: jsname.splits if_splits)

lemma not_both_truthy:
  "\<not> (truthy a \<and> truthy b) \<Longrightarrow> a \<noteq> Str [] \<Longrightarrow> b \<noteq> Str [] \<Longrightarrow>
   ensureArray a = [] \<or> ensureArray b = []"
  by (cases a; cases b) auto

text \<open>
  Claim C4, as amended. A \<^verbatim>\<open>before\<close> or \<^verbatim>\<open>after\<close> call with a string name whose \<^verbatim>\<open>only\<close> and
  \<^verbatim>\<open>except\<close> options are both truthy (a non-empty string or any array) fails with
  \<open>ConflictingOptions\<close>. A call that succeeds appends one declaration with the given
  name and stage whose \<^verbatim>\<open>only\<close> and \<^verbatim>\<open>except\<close> are the normalised options, and, unless one
  of the options is the empty string, at most one of the two is non-empty. (Nothing is
  said about later states: a skip may fill the other set.)
\<close>

theorem declaration_exclusive:
  "(truthy (only (supplied arg d)) \<and> truthy (except (supplied arg d)) \<longrightarrow>
      filter_op (StringName n) st arg d = Inl ConflictingOptions) \<and>
   (\<forall>d'. filter_op nm st arg d = Inr d' \<longrightarrow>
      (\<exists>f. filters d' = filters d @ [f] \<and> StringName (name f) = nm \<and> stage f = st \<and>
           only_of d' f = ensureArray (only (supplied arg d)) \<and>
           except_of d' f = ensureArray (except (supplied arg d)) \<and>
           (only (supplied arg d) \<noteq> Str [] \<and> except (supplied arg d) \<noteq> Str [] \<longrightarrow>
              only_of d' f = [] \<or> except_of d' f = [])))"
  (is "?conflict \<and> (\<forall>d'. ?ok d' \<longrightarrow> ?appended d')")
proof (intro conjI allI impI)
  assume "truthy (only (supplied arg d)) \<and> truthy (except (supplied arg d))"
  then show "filter_op (StringName n) st arg d = Inl ConflictingOptions"
    by (simp add: filter_op_conflict)
next
  fix d' assume "?ok d'"
  from filter_op_appends[OF this] obtain f where
    f: "filters d' = filters d @ [f]" "StringName (name f) = nm" "stage f = st"
       "\<not> (truthy (only (supplied arg d)) \<and> truthy (except (supplied arg d)))"
       "only_of d' f = ensureArray (only (supplied arg d))"
       "except_of d' f = ensureArray (except (supplied arg d))"
    by blast
  show "?appended d'"
    using f not_both_truthy[OF f(4)] by (intro exI[of _ f]) simp
qed

theorem declaration_exclusive_witness:
  "truthy (only (supplied (Object 2) (init objects))) \<and>
   truthy (except (supplied (Object 2) (init objects))) \<and>
   filter_op (StringName ''auth'') Before (Object 2) (init objects) = Inl ConflictingOptions \<and>
   filter_op (StringName ''auth'') Before (Object 0) (init objects)
     = Inr (projr (filter_op (StringName ''auth'') Before (Object 0) (init objects))) \<and>
   only_of (projr (filter_op (StringName ''auth'') Before (Object 0) (init objects)))
     (last (filters (projr (filter_op (StringName ''auth'') Before (Object 0) (init objects)))))
     = [''index''] \<and>
   except_of (projr (filter_op (StringName ''auth'') Before (Object 0) (init objects)))
     (last (filters (projr (filter_op (StringName ''auth'') Before (Object 0) (init objects)))))
     = []"
proof -
  have t: "truthy (only (supplied (Object 2) (init objects)))"
          "truthy (except (supplied (Object 2) (init objects)))"
    by (simp_all add: init_def objects_def)
  with declaration_exclusive[where arg = "Object 2" and d = "init objects" and n = "''auth''"
      and st = Before]
  have c: "filter_op (StringName ''auth'') Before (Object 2) (init objects) = Inl ConflictingOptions"
    by blast
  have ok: "filter_op (StringName ''auth'') Before (Object 0) (init objects)
     = Inr (projr (filter_op (StringName ''auth'') Before (Object 0) (init objects)))"
    by (simp add: filter_op_def init_def objects_def)
  have s: "heap (init objects) (Caller 0)
             = \<lparr>only = Str ''index'', except = Undefined, skip = False\<rparr>"
    by (simp add: init_def objects_def)
  from declaration_exclusive[where arg = "Object 0" and d = "init objects"
      and nm = "StringName ''auth''" and st = Before] ok
  obtain f where
    "filters (projr (filter_op (StringName ''auth'') Before (Object 0) (init objects)))
       = filters (init objects) @ [f]"
    "only_of (projr (filter_op (StringName ''auth'') Before (Object 0) (init objects))) f
       = ensureArray (only (supplied (Object 0) (init objects)))"
    "except_of (projr (filter_op (StringName ''auth'') Before (Object 0) (init objects))) f
       = ensureArray (except (supplied (Object 0) (init objects)))"
    by blast
  then show ?thesis using t c ok by (simp add: s)
qed

text \<open>
  Claim C4 as stated fails: after \<^verbatim>\<open>before('auth', { only: 'index' })\<close> and
  \<^verbatim>\<open>skipBefore('auth', { only: ['show'] })\<close> the declaration has both a non-empty \<^verbatim>\<open>only\<close>
  and a non-empty \<^verbatim>\<open>except\<close>.
\<close>

theorem skip_makes_both_nonempty:
  "\<not> isl narrowed_by_skip \<and>
   only_of (projr narrowed_by_skip) (filters (projr narrowed_by_skip) ! 0) = [''index''] \<and>
   except_of (projr narrowed_by_skip) (filters (projr narrowed_by_skip) ! 0) = [''show'']"
  by (simp add: narrowed_by_skip_def eval_defs)

text \<open>The empty string is falsy: \<^verbatim>\<open>before('auth', { only: '', except: 'show' })\<close> is accepted
  and declares both sets non-empty.\<close>

lemma empty_string_is_not_conflicting:
  "\<not> isl declared_with_empty_string \<and>
   only_of (projr declared_with_empty_string) (filters (projr declared_with_empty_string) ! 0)
     = [[]] \<and>
   except_of (projr declared_with_empty_string) (filters (projr declared_with_empty_string) ! 0)
     = [''show'']"
  by (simp add: declared_with_empty_string_def eval_defs)

subsection \<open>Skipping\<close>

lemma skip_op_unknown:
  "findWhere (filters d0) nm st = None \<Longrightarrow> skip_op nm st arg d0 = Inl UnknownFilter"
  by (cases arg) (simp_all add: skip_op_def)

text \<open>The options object of the declaration that \<^verbatim>\<open>findWhere\<close> returns, after the skip.\<close>

lemma skip_op_target:
  assumes wf: "well_formed d0" and f: "findWhere (filters d0) nm st = Some f"
  shows "\<exists>d'. skip_op nm st arg d0 = Inr d' \<and>
           heap d' (options f) =
             (if ensureArray (only (supplied arg d0)) \<noteq> []
              then (heap d0 (options f))\<lparr>except :=
                     Arr (except_of d0 f @ ensureArray (only (supplied arg d0)))\<rparr>
              else if ensureArray (except (supplied arg d0)) \<noteq> []
              then (heap d0 (options f))\<lparr>only :=
                     Arr (only_of d0 f @ ensureArray (except (supplied arg d0)))\<rparr>
              else (heap d0 (options f))\<lparr>skip := True\<rparr>)"
proof -
  obtain r d where rd: "options_argument arg d0 = (r, d)" by (cases "options_argument arg d0")
  have fs: "filters d = filters d0" using rd by (rule options_argument_filters)
  have fin: "f \<in> set (filters d0)" using f by (simp add: findWhere_mem)
  have ht: "heap d (options f) = heap d0 (options f)"
    using rd wf fin by (rule options_argument_heap)
  have hr: "heap d r = supplied arg d0" using rd by (rule options_argument_supplied)
  from wf fin obtain xs ys where
    arr: "only (heap d0 (options f)) = Arr xs" "except (heap d0 (options f)) = Arr ys"
    by (auto simp: well_formed_def)
  have nt: "normalise r (heap d) (options f) = heap d0 (options f)"
    using normalise_arrays[of "heap d" "options f" xs ys r] arr ht by simp
  have nr: "only (normalise r (heap d) r) = Arr (ensureArray (only (supplied arg d0)))"
           "except (normalise r (heap d) r) = Arr (ensureArray (except (supplied arg d0)))"
    by (simp_all add: normalise_same hr)
  show ?thesis
    unfolding skip_op_def rd
    by (simp add: fs f Let_def nt nr only_of_def except_of_def)
qed

lemma skip_op_effect:
  assumes wf: "well_formed d" and f: "findWhere (filters d) nm st = Some f"
  shows "\<exists>d'. skip_op nm st arg d = Inr d' \<and> filters d' = filters d \<and>
          (let os = ensureArray (only (supplied arg d));
               es = ensureArray (except (supplied arg d))
           in (os \<noteq> [] \<longrightarrow>
                 except_of d' f = except_of d f @ os \<and> only_of d' f = only_of d f \<and>
                 skipped d' f = skipped d f) \<and>
              (os = [] \<and> es \<noteq> [] \<longrightarrow>
                 only_of d' f = only_of d f @ es \<and> except_of d' f = except_of d f \<and>
                 skipped d' f = skipped d f) \<and>
              (os = [] \<and> es = [] \<longrightarrow>
                 skipped d' f \<and> only_of d' f = only_of d f \<and> except_of d' f = except_of d f) \<and>
              (\<forall>x. os = [x] \<longrightarrow>
                 \<not> applies d' x st f \<and>
                 (\<forall>y. y \<noteq> x \<longrightarrow> applies d' y st f = applies d y st f)) \<and>
              (arg = Omitted \<longrightarrow> (\<forall>a. \<not> applies d' a st f)))"
proof -
  from skip_op_target[OF wf f, of arg] obtain d' where
    ok: "skip_op nm st arg d = Inr d'" and
    cell: "heap d' (options f) =
             (if ensureArray (only (supplied arg d)) \<noteq> []
              then (heap d (options f))\<lparr>except :=
                     Arr (except_of d f @ ensureArray (only (supplied arg d)))\<rparr>
              else if ensureArray (except (supplied arg d)) \<noteq> []
              then (heap d (options f))\<lparr>only :=
                     Arr (only_of d f @ ensureArray (except (supplied arg d)))\<rparr>
              else (heap d (options f))\<lparr>skip := True\<rparr>)"
    by blast
  have fs: "filters d' = filters d" using ok by (rule skip_op_filters)
  have "arg = Omitted \<longrightarrow> (\<forall>a. \<not> applies d' a st f)"
    using cell by (auto simp: applies_def)
  then show ?thesis
    unfolding Let_def
    by (intro exI[of _ d'] conjI ok fs)
       (auto simp: cell only_of_def except_of_def skipped_def applies_def Let_def)
qed

text \<open>
  Claim C5, as amended. A skip fails with \<open>UnknownFilter\<close> when no declaration has the
  given name and stage. Otherwise it succeeds, leaves the list of declarations as it
  is and changes the first declaration \<open>f\<close> with that name and stage: a non-empty
  \<^verbatim>\<open>only\<close> is appended to the \<^verbatim>\<open>except\<close> of \<open>f\<close>; a non-empty \<^verbatim>\<open>except\<close> is appended to
  the \<^verbatim>\<open>only\<close> of \<open>f\<close> when \<^verbatim>\<open>only\<close> is empty; with both empty \<open>f\<close> is marked
  as skipped. Hence after a skip with \<^verbatim>\<open>only: [x]\<close> the declaration \<open>f\<close> does not apply
  to the action \<open>x\<close> and applies to every other action exactly when it did before, and
  after a skip without options \<open>f\<close> applies to no action.
\<close>

theorem skip_merges:
  assumes "reachable d"
  shows "(findWhere (filters d) nm st = None \<longrightarrow> skip_op nm st arg d = Inl UnknownFilter) \<and>
    (\<forall>f. findWhere (filters d) nm st = Some f \<longrightarrow>
       (\<exists>d'. skip_op nm st arg d = Inr d' \<and> filters d' = filters d \<and>
          (let os = ensureArray (only (supplied arg d));
               es = ensureArray (except (supplied arg d))
           in (os \<noteq> [] \<longrightarrow>
                 except_of d' f = except_of d f @ os \<and> only_of d' f = only_of d f \<and>
                 skipped d' f = skipped d f) \<and>
              (os = [] \<and> es \<noteq> [] \<longrightarrow>
                 only_of d' f = only_of d f @ es \<and> except_of d' f = except_of d f \<and>
                 skipped d' f = skipped d f) \<and>
              (os = [] \<and> es = [] \<longrightarrow>
                 skipped d' f \<and> only_of d' f = only_of d f \<and> except_of d' f = except_of d f) \<and>
              (\<forall>x. os = [x] \<longrightarrow>
                 \<not> applies d' x st f \<and>
                 (\<forall>y. y \<noteq> x \<longrightarrow> applies d' y st f = applies d y st f)) \<and>
              (arg = Omitted \<longrightarrow> (\<forall>a. \<not> applies d' a st f)))))"
  (is "?unknown \<and> (\<forall>f. ?found f \<longrightarrow> ?effect f)")
proof (intro conjI allI impI)
  assume "findWhere (filters d) nm st = None"
  then show "skip_op nm st arg d = Inl UnknownFilter" by (rule skip_op_unknown)
next
  fix f assume "?found f"
  with reachable_well_formed[OF assms] show "?effect f" by (rule skip_op_effect)
qed

theorem skip_merges_witness:
  "reachable declared_once \<and>
   findWhere (filters declared_once) (StringName ''auth'') Before
     = Some (filters declared_once ! 0) \<and>
   \<not> applies (projr (skip_op (StringName ''auth'') Before (Object 1) declared_once))
        ''show'' Before (filters declared_once ! 0) \<and>
   applies (projr (skip_op (StringName ''auth'') Before (Object 1) declared_once))
        ''index'' Before (filters declared_once ! 0) \<and>
   skip_op (StringName ''missing'') Before (Object 1) declared_once = Inl UnknownFilter"
proof -
  have fw: "findWhere (filters declared_once) (StringName ''auth'') Before
              = Some (filters declared_once ! 0)"
    by (simp add: findWhere_def once_filters)
  have os: "ensureArray (only (supplied (Object 1) declared_once)) = [''show'']"
    by (simp add: once_heap)
  from skip_merges[OF reachable_declared_once, of "StringName ''auth''" Before "Object 1"] fw os
  obtain d' where d': "skip_op (StringName ''auth'') Before (Object 1) declared_once = Inr d'"
    "\<not> applies d' ''show'' Before (filters declared_once ! 0)"
    "applies d' ''index'' Before (filters declared_once ! 0)
       = applies declared_once ''index'' Before (filters declared_once ! 0)"
    by (auto simp: Let_def)
  have "applies declared_once ''index'' Before (filters declared_once ! 0)"
    by (simp add: applies_def once_filters once_heap)
  moreover have "findWhere (filters declared_once) (StringName ''missing'') Before = None"
    by (simp add: findWhere_def once_filters)
  with skip_merges[OF reachable_declared_once, of "StringName ''missing''" Before "Object 1"]
  have "skip_op (StringName ''missing'') Before (Object 1) declared_once = Inl UnknownFilter"
    by blast
  ultimately show ?thesis using d' fw reachable_declared_once by simp
qed

text \<open>
  Claim C5 as stated fails where it says that a skip with a non-empty \<^verbatim>\<open>except\<close> adds
  those names to the \<^verbatim>\<open>only\<close> of the declaration: the branch is an \<^verbatim>\<open>else if\<close>, so
  \<^verbatim>\<open>skipBefore('auth', { only: ['index'], except: ['show'] })\<close> appends \<^verbatim>\<open>'index'\<close> to
  \<^verbatim>\<open>except\<close> and leaves \<^verbatim>\<open>only\<close> empty.
\<close>

theorem skip_ignores_except_when_only_given:
  "\<not> isl skipped_with_both \<and>
   only_of (projr skipped_with_both) (filters (projr skipped_with_both) ! 0) = [] \<and>
   except_of (projr skipped_with_both) (filters (projr skipped_with_both) ! 0) = [''index'']"
  by (simp add: skipped_with_both_def eval_defs)

lemma skip_op_frame:
  assumes wf: "well_formed d0" and ok: "skip_op nm st arg d0 = Inr d'"
    and f: "findWhere (filters d0) nm st = Some f"
    and g: "g \<in> set (filters d0)" and ne: "options g \<noteq> options f"
  shows "heap d' (options g) = heap d0 (options g)"
proof -
  obtain r d where rd: "options_argument arg d0 = (r, d)" by (cases "options_argument arg d0")
  have fs: "filters d = filters d0" using rd by (rule options_argument_filters)
  have hg: "heap d (options g) = heap d0 (options g)"
    using rd wf g by (rule options_argument_heap)
  have "well_formed d" using rd wf by (rule options_argument_well_formed)
  with g fs obtain xs ys where
    "only (heap d (options g)) = Arr xs" "except (heap d (options g)) = Arr ys"
    by (auto simp: well_formed_def)
  then have "normalise r (heap d) (options g) = heap d (options g)" by (rule normalise_arrays)
  moreover have "heap d' (options g) = normalise r (heap d) (options g)"
    using ok rd f fs ne by (auto simp: skip_op_def Let_def split: if_splits)
  ultimately show ?thesis using hg by simp
qed

text \<open>
  Claim C10. A skip that succeeds leaves the list of declarations as it is; the
  declaration it picks is the first one with the given name and stage (no earlier
  index matches), and the options of the declaration at every other index, later
  duplicates of the same name and stage included, are what they were. The registry is
  any one that DSL calls produce from the empty registry: there no two declarations
  share their options object.
\<close>

theorem skip_changes_first_match_only:
  assumes "reachable d" and "skip_op nm st arg d = Inr d'"
  shows "filters d' = filters d \<and>
    (\<exists>i < length (filters d).
       findWhere (filters d) nm st = Some (filters d ! i) \<and>
       (\<forall>j < i. \<not> (StringName (name (filters d ! j)) = nm \<and> stage (filters d ! j) = st)) \<and>
       (\<forall>j < length (filters d). j \<noteq> i \<longrightarrow>
          heap d' (options (filters d ! j)) = heap d (options (filters d ! j))))"
proof -
  have wf: "well_formed d" using assms(1) by (rule reachable_well_formed)
  obtain f where f: "findWhere (filters d) nm st = Some f"
    using assms(2) by (cases arg) (auto simp: skip_op_def split: option.splits)
  then obtain i where i: "i < length (filters d)" "filters d ! i = f"
    and first: "\<forall>j < i. \<not> (StringName (name (filters d ! j)) = nm \<and> stage (filters d ! j) = st)"
    unfolding findWhere_def find_Some_iff by blast
  have "heap d' (options (filters d ! j)) = heap d (options (filters d ! j))"
    if j: "j < length (filters d)" "j \<noteq> i" for j
  proof -
    have "distinct (map options (filters d))" using wf by (simp add: well_formed_def)
    with i j have "options (filters d ! j) \<noteq> options f"
      by (metis length_map nth_eq_iff_index_eq nth_map)
    with skip_op_frame[OF wf assms(2) f] j show ?thesis by simp
  qed
  with i first f show ?thesis using skip_op_filters[OF assms(2)] by blast
qed

theorem skip_changes_first_match_only_witness:
  "reachable declared_twice \<and>
   skipped (projr (skip_op (StringName ''auth'') Before Omitted declared_twice))
     (filters declared_twice ! 0) \<and>
   \<not> skipped (projr (skip_op (StringName ''auth'') Before Omitted declared_twice))
     (filters declared_twice ! 1)"
proof -
  from skip_changes_first_match_only[OF reachable_declared_twice twice_skip]
  obtain i where i: "i < length (filters declared_twice)"
      "findWhere (filters declared_twice) (StringName ''auth'') Before
         = Some (filters declared_twice ! i)"
      "\<forall>j < length (filters declared_twice). j \<noteq> i \<longrightarrow>
          heap (projr (skip_op (StringName ''auth'') Before Omitted declared_twice))
               (options (filters declared_twice ! j))
           = heap declared_twice (options (filters declared_twice ! j))"
    by blast
  have "i = 0" using i(1,2) by (auto simp: twice_filters findWhere_def less_Suc_eq)
  with i(3)[rule_format, of "Suc 0"]
  have "heap (projr (skip_op (StringName ''auth'') Before Omitted declared_twice)) (Created (Suc 0))
           = heap declared_twice (Created (Suc 0))"
    by (simp add: twice_filters)
  then show ?thesis
    using reachable_declared_twice
    by (simp add: skipped_def twice_filters twice_skip_heap twice_heap)
qed

section \<open>Inheritance\<close>

lemma walk_acc:
  "walk p acc = (case walk p [] of Inl e \<Rightarrow> Inl e | Inr ch \<Rightarrow> Inr (acc @ ch))"
proof (induction p arbitrary: acc)
  case (ObjectPrototype ms)
  show ?case by simp
next
  case (Proto fs ms p)
  show ?case
  proof (cases p)
    case (ObjectPrototype ms')
    then show ?thesis by simp
  next
    case inner: (Proto fs' ms' q)
    let ?add = "if get_filters (Proto fs ms p) \<noteq> None then [Proto fs ms p] else []"
    have "walk (Proto fs ms p) acc = walk p (acc @ ?add)"
      and "walk (Proto fs ms p) [] = walk p ?add"
      unfolding inner by simp_all
    with Proto.IH[of "acc @ ?add"] Proto.IH[of ?add] show ?thesis
      by (simp split: sum.splits)
  qed
qed

lemma forEach_append:
  "forEach (xs @ ys) d = (case forEach xs d of Inl e \<Rightarrow> Inl e | Inr d' \<Rightarrow> forEach ys d')"
  by (induction xs arbitrary: d) (auto split: option.splits sum.splits)

lemma buildFilters_step:
  "buildFilters (Proto fs ms (Proto fs' ms' p)) objs =
     (case buildFilters (Proto fs' ms' p) objs of
        Inl e \<Rightarrow> Inl e
      | Inr d \<Rightarrow> (case get_filters (Proto fs ms (Proto fs' ms' p)) of
                    None \<Rightarrow> Inr d
                  | Some proc \<Rightarrow> run proc d))"
proof -
  let ?t = "Proto fs ms (Proto fs' ms' p)"
  let ?add = "if get_filters ?t \<noteq> None then [?t] else []"
  have w: "walk ?t [] = (case walk (Proto fs' ms' p) [] of Inl e \<Rightarrow> Inl e
                         | Inr ch \<Rightarrow> Inr (?add @ ch))"
  proof (cases "get_filters ?t")
    case None
    then have "walk ?t [] = walk (Proto fs' ms' p) []" by (simp del: get_filters.simps)
    then show ?thesis using None by (simp del: get_filters.simps split: sum.splits)
  next
    case (Some proc)
    then have "walk ?t [] = walk (Proto fs' ms' p) [?t]" by (simp del: get_filters.simps)
    with walk_acc[of "Proto fs' ms' p" "[?t]"] Some show ?thesis
      by (simp del: get_filters.simps)
  qed
  show ?thesis
    unfolding buildFilters_def w
    by (cases "get_filters ?t")
       (auto simp: forEach_append simp del: get_filters.simps split: sum.splits option.splits)
qed

lemma call_appends:
  "call c d = Inr d' \<Longrightarrow>
   \<exists>new. filters d' = filters d @ new \<and> map (\<lambda>f. (name f, stage f)) new = declares c"
proof (cases c)
  case (CallBefore nm arg)
  assume "call c d = Inr d'"
  with CallBefore show ?thesis
    by (cases arg)
       (auto simp: before_def filter_op_def split: jsname.splits if_splits)
next
  case (CallAfter nm arg)
  assume "call c d = Inr d'"
  with CallAfter show ?thesis
    by (cases arg)
       (auto simp: after_def filter_op_def split: jsname.splits if_splits)
next
  case (CallSkipBefore nm arg)
  assume "call c d = Inr d'"
  with CallSkipBefore show ?thesis by (simp add: skipBefore_def skip_op_filters)
next
  case (CallSkipAfter nm arg)
  assume "call c d = Inr d'"
  with CallSkipAfter show ?thesis by (simp add: skipAfter_def skip_op_filters)
qed

lemma run_appends:
  "run proc d = Inr d' \<Longrightarrow>
   \<exists>new. filters d' = filters d @ new \<and>
         map (\<lambda>f. (name f, stage f)) new = concat (map declares proc)"
proof (induction proc arbitrary: d)
  case Nil
  then show ?case by simp
next
  case (Cons c proc)
  from Cons.prems obtain d1 where c: "call c d = Inr d1" and r: "run proc d1 = Inr d'"
    by (auto split: sum.splits)
  from call_appends[OF c] obtain n1 where
    n1: "filters d1 = filters d @ n1" "map (\<lambda>f. (name f, stage f)) n1 = declares c" by blast
  from Cons.IH[OF r] obtain n2 where
    n2: "filters d' = filters d1 @ n2" "map (\<lambda>f. (name f, stage f)) n2 = concat (map declares proc)"
    by blast
  from n1 n2 show ?case by (intro exI[of _ "n1 @ n2"]) simp
qed

lemma run_append:
  "run (xs @ ys) d = (case run xs d of Inl e \<Rightarrow> Inl e | Inr d' \<Rightarrow> run ys d')"
  by (induction xs arbitrary: d) (auto split: sum.splits)

text \<open>Composition runs the procedures of \<open>procedure_order\<close>, in that order, on one
  registry.\<close>

lemma buildFilters_order:
  "buildFilters (Proto fs ms p) objs
     = run (concat (procedure_order (Proto fs ms p))) (init objs)"
proof (induction p arbitrary: fs ms)
  case (ObjectPrototype ms')
  show ?case by (simp add: buildFilters_def)
next
  case (Proto fs' ms' p)
  show ?case
    by (cases "get_filters (Proto fs ms (Proto fs' ms' p))")
       (simp_all add: buildFilters_step Proto.IH run_append del: get_filters.simps
                 split: sum.splits)
qed

text \<open>
  Composition succeeds when every procedure that is run consists of accepted calls;
  among them are the procedures that are run once more for a level that inherits them,
  since an object literal is a new object each time.
\<close>

lemma call_accepted: "accepted c \<Longrightarrow> \<exists>d'. call c d = Inr d'"
  by (induction c rule: accepted.induct)
     (auto simp: before_def after_def filter_op_def)

lemma run_accepted: "\<forall>c \<in> set proc. accepted c \<Longrightarrow> \<exists>d'. run proc d = Inr d'"
proof (induction proc arbitrary: d)
  case Nil
  show ?case by simp
next
  case (Cons c proc)
  then obtain d1 where "call c d = Inr d1" using call_accepted[of c d] by auto
  with Cons show ?case by auto
qed

lemma buildFilters_succeeds:
  assumes "\<forall>proc \<in> set (procedure_order (Proto fs ms p)). \<forall>c \<in> set proc. accepted c"
  shows "\<exists>d. buildFilters (Proto fs ms p) objs = Inr d"
  using assms run_accepted[of "concat (procedure_order (Proto fs ms p))" "init objs"]
  by (auto simp: buildFilters_order)

section \<open>Properties of the executor\<close>

lemmas exec_defs =
  action_def executeHandlerChain_def buildHandlers_def filtersForAction_def executeHandler_def
  fake_next_def reject_def resolve_def isResSent_def request_def init_def base_def
  new_def buildFilters_def applies_def Let_def no_objects_def

subsection \<open>One handler\<close>

lemma invoke_no_trigger:
  "\<forall>e. CallNext e \<notin> set sigs \<Longrightarrow>
   invoke an sigs s = (None, s\<lparr>headersSent := headersSent s \<or> Send \<in> set sigs\<rparr>)"
proof (induction sigs arbitrary: s)
  case Nil
  then show ?case by simp
next
  case (Cons x sigs)
  then show ?case by (cases x) auto
qed

text \<open>What \<^verbatim>\<open>_executeHandler\<close> does for a handler that does not invoke the trigger.\<close>

lemma executeHandler_value:
  assumes "completes h = ReturnsValue" and "\<forall>e. CallNext e \<notin> set (during_call h)"
  shows "executeHandler strict an h s =
     (let s1 = s\<lparr>outer := Pending, handlerReturnedPromise := False, handlerCalledNext := False,
                  headersSent := headersSent s \<or> Send \<in> set (during_call h)\<rparr>
      in if arity h < 3
         then if strict then s1\<lparr>outer := Rejected (MissingCompletionSignal (fname h))\<rparr>
              else if headersSent s1 then s1\<lparr>outer := Rejected CancellationError\<rparr>
              else s1\<lparr>outer := Fulfilled\<rparr>
         else s1)"
  using assms
  by (simp add: executeHandler_def invoke_no_trigger reject_def resolve_def isResSent_def Let_def)

lemma executeHandler_promise:
  assumes "completes h = ReturnsPromise sent settle" and "\<forall>e. CallNext e \<notin> set (during_call h)"
  shows "executeHandler strict an h s =
     (let s1 = s\<lparr>outer := Pending, handlerReturnedPromise := True, handlerCalledNext := False,
                  headersSent := headersSent s \<or> Send \<in> set (during_call h) \<or> sent\<rparr>
      in case settle of
           NeverSettles \<Rightarrow> s1
         | Rejects e \<Rightarrow> s1\<lparr>outer := Rejected (HandlerError e)\<rparr>
         | Resolves \<Rightarrow> if headersSent s1 then s1\<lparr>outer := Rejected CancellationError\<rparr>
                       else s1\<lparr>outer := Fulfilled\<rparr>)"
  using assms
  by (cases settle)
     (auto simp add: executeHandler_def invoke_no_trigger reject_def resolve_def isResSent_def Let_def)

lemma each_append:
  "each c an (pre @ hs) s =
     (case each c an pre s of (Fulfilled, s') \<Rightarrow> each c an hs s' | (p, s') \<Rightarrow> (p, s'))"
proof (induction pre arbitrary: s)
  case Nil
  then show ?case by simp
next
  case (Cons hn pre)
  then show ?case
    by (auto simp: Let_def split: option.splits promise.splits prod.splits)
qed

lemma invoke_not_fulfilled:
  "outer s \<noteq> Fulfilled \<Longrightarrow> outer (snd (invoke an sigs s)) \<noteq> Fulfilled"
proof (induction sigs arbitrary: s)
  case Nil
  then show ?case by simp
next
  case (Cons x sigs)
  show ?case
  proof (cases x)
    case Send
    with Cons show ?thesis by simp
  next
    case (CallNext err)
    obtain t s' where f: "fake_next an err s = (t, s')" by (cases "fake_next an err s")
    with Cons.prems have "outer s' \<noteq> Fulfilled"
      by (auto simp: fake_next_def reject_def Let_def split: if_splits option.splits)
    with Cons.IH[of s'] f CallNext show ?thesis by (cases t) auto
  qed
qed

lemma link_fulfilled:
  "outer (link sent settle s) = Fulfilled \<Longrightarrow> outer s \<noteq> Fulfilled \<Longrightarrow>
   \<not> headersSent (link sent settle s)"
  by (cases settle)
     (auto simp: reject_def resolve_def isResSent_def Let_def split: if_splits)

text \<open>
  The promise of a handler is fulfilled by \<open>resolve\<close> only, and every call of
  \<open>resolve\<close> is guarded by a test that the response is not sent. So a chain whose
  handlers were all fulfilled ends with the response not sent, and a dispatch never ends
  with its promise fulfilled: when the last handler has sent the response, the rest is
  skipped and the continuation is called.
\<close>

lemma executeHandler_fulfilled:
  assumes "outer (executeHandler strict an h s) = Fulfilled"
  shows "\<not> headersSent (executeHandler strict an h s)"
proof -
  let ?s0 = "s\<lparr>outer := Pending, handlerReturnedPromise := False, handlerCalledNext := False\<rparr>"
  obtain t s1 where inv: "invoke an (during_call h) ?s0 = (t, s1)"
    by (cases "invoke an (during_call h) ?s0")
  have nf: "outer s1 \<noteq> Fulfilled"
    using invoke_not_fulfilled[of ?s0 an "during_call h"] inv by simp
  show ?thesis
    using assms nf unfolding executeHandler_def Let_def inv
    by (cases t; cases "completes h")
       (auto simp: reject_def resolve_def isResSent_def Let_def
             split: if_splits dest: link_fulfilled)
qed

lemma each_fulfilled:
  "each c an hs s = (Fulfilled, s') \<Longrightarrow> hs \<noteq> [] \<Longrightarrow> \<not> headersSent s'"
proof (induction hs arbitrary: s)
  case Nil
  then show ?case by simp
next
  case (Cons hn hs)
  from Cons.prems(1) obtain h where h: "get (prototype c) hn = Some h"
    by (auto split: option.splits)
  let ?s1 = "executeHandler (strictAsyncMode c) an h (s\<lparr>invoked := invoked s @ [hn]\<rparr>)"
  from Cons.prems(1) h have o: "outer ?s1 = Fulfilled" and e: "each c an hs ?s1 = (Fulfilled, s')"
    by (auto simp: Let_def split: promise.splits)
  show ?case
  proof (cases hs)
    case Nil
    with e have "s' = ?s1" by simp
    with executeHandler_fulfilled[OF o] show ?thesis by simp
  next
    case (Cons a list)
    with Cons.IH[OF e] show ?thesis by simp
  qed
qed

lemma buildHandlers_not_empty: "buildHandlers c an \<noteq> []"
  by (simp add: buildHandlers_def)

lemma never_completed: "action c an s = Inr (p, s') \<Longrightarrow> p \<noteq> Fulfilled"
proof
  assume a: "action c an s = Inr (p, s')" and p: "p = Fulfilled"
  obtain q t where e: "each c an (buildHandlers c an) s = (q, t)"
    by (cases "each c an (buildHandlers c an) s")
  from a p e have "q = Fulfilled \<and> headersSent t"
    by (auto simp: action_def executeHandlerChain_def isResSent_def Let_def
             split: if_splits promise.splits error.splits)
  with each_fulfilled[of c an "buildHandlers c an" s t] e buildHandlers_not_empty
  show False by auto
qed

text \<open>
  While the handler runs, \<open>handlerReturnedPromise\<close> is false, so the faked \<^verbatim>\<open>next\<close> does
  not throw; once it has been called the promise is rejected. The exception for "returned
  a Promise and called continue" that follows the return then finds the promise settled.
\<close>

lemma invoke_no_dual:
  assumes "\<not> handlerReturnedPromise s"
    and "outer s = Pending \<and> \<not> handlerCalledNext s \<or>
         (\<exists>e. outer s = Rejected (HandlerError e)) \<or> outer s = Rejected CancellationError"
  shows "fst (invoke an sigs s) = None \<and>
         \<not> handlerReturnedPromise (snd (invoke an sigs s)) \<and>
         (outer (snd (invoke an sigs s)) = Pending \<and> \<not> handlerCalledNext (snd (invoke an sigs s)) \<or>
          (\<exists>e. outer (snd (invoke an sigs s)) = Rejected (HandlerError e)) \<or>
          outer (snd (invoke an sigs s)) = Rejected CancellationError)"
  using assms
proof (induction sigs arbitrary: s)
  case Nil
  then show ?case by simp
next
  case (Cons x sigs)
  show ?case
  proof (cases x)
    case Send
    with Cons.IH[of "s\<lparr>headersSent := True\<rparr>"] Cons.prems show ?thesis by simp
  next
    case (CallNext err)
    obtain s' where f: "fake_next an err s = (None, s')"
      and p: "\<not> handlerReturnedPromise s'"
         "(\<exists>e. outer s' = Rejected (HandlerError e)) \<or> outer s' = Rejected CancellationError"
      using Cons.prems
      by (cases err) (auto simp: fake_next_def reject_def Let_def)
    with Cons.IH[of s'] CallNext show ?thesis by auto
  qed
qed

lemma never_dual:
  "outer (executeHandler strict an h s) \<noteq> Rejected (DualCompletionError x)"
proof -
  let ?s0 = "s\<lparr>outer := Pending, handlerReturnedPromise := False, handlerCalledNext := False\<rparr>"
  obtain t s1 where inv: "invoke an (during_call h) ?s0 = (t, s1)"
    by (cases "invoke an (during_call h) ?s0")
  with invoke_no_dual[of ?s0 an "during_call h"]
  have t: "t = None" and
    o: "outer s1 = Pending \<and> \<not> handlerCalledNext s1 \<or>
        (\<exists>e. outer s1 = Rejected (HandlerError e)) \<or> outer s1 = Rejected CancellationError"
    by simp_all
  show ?thesis
  proof (cases "completes h")
    case (Throws e)
    with o show ?thesis
      unfolding executeHandler_def Let_def inv t by (auto simp: reject_def)
  next
    case ThrowsTypeError
    with o show ?thesis
      unfolding executeHandler_def Let_def inv t by (auto simp: reject_def)
  next
    case (ReturnsPromise sent settle)
    with o show ?thesis
      unfolding executeHandler_def Let_def inv t
      by (cases settle) (auto simp: reject_def resolve_def isResSent_def Let_def)
  next
    case ReturnsValue
    with o show ?thesis
      unfolding executeHandler_def Let_def inv t
      by (auto simp: reject_def resolve_def isResSent_def)
  qed
qed

text \<open>
  The handlers are invoked in the order of the list, up to the first one that is
  undefined or whose promise is not fulfilled; what follows it has no effect.
\<close>

lemma invoke_invoked: "invoked (snd (invoke an sigs s)) = invoked s"
proof (induction sigs arbitrary: s)
  case Nil
  show ?case by simp
next
  case (Cons x sigs)
  show ?case
  proof (cases x)
    case Send
    with Cons[of "s\<lparr>headersSent := True\<rparr>"] show ?thesis by simp
  next
    case (CallNext err)
    obtain t s' where f: "fake_next an err s = (t, s')" by (cases "fake_next an err s")
    then have "invoked s' = invoked s"
      by (auto simp: fake_next_def reject_def Let_def split: if_splits option.splits)
    with Cons[of s'] f CallNext show ?thesis by (cases t) auto
  qed
qed

lemma link_invoked: "invoked (link sent settle s) = invoked s"
  by (cases settle) (auto simp: reject_def resolve_def Let_def)

lemma executeHandler_invoked: "invoked (executeHandler strict an h s) = invoked s"
proof -
  let ?s0 = "s\<lparr>outer := Pending, handlerReturnedPromise := False, handlerCalledNext := False\<rparr>"
  obtain t s1 where inv: "invoke an (during_call h) ?s0 = (t, s1)"
    by (cases "invoke an (during_call h) ?s0")
  with invoke_invoked[of an "during_call h" ?s0] have "invoked s1 = invoked s" by simp
  then show ?thesis
    unfolding executeHandler_def Let_def inv
    by (cases t; cases "completes h")
       (auto simp: reject_def resolve_def link_invoked)
qed

lemma each_invoked:
  "\<exists>k \<le> length hs.
     invoked (snd (each c an hs s)) = invoked s @ take k hs \<and>
     (fst (each c an hs s) = Fulfilled \<longrightarrow> k = length hs) \<and>
     (hs \<noteq> [] \<and> get (prototype c) (hd hs) \<noteq> None \<longrightarrow> 0 < k)"
proof (induction hs arbitrary: s)
  case Nil
  show ?case by simp
next
  case (Cons hn hs)
  show ?case
  proof (cases "get (prototype c) hn")
    case None
    then show ?thesis by (intro exI[of _ 0]) simp
  next
    case (Some h)
    let ?s' = "executeHandler (strictAsyncMode c) an h (s\<lparr>invoked := invoked s @ [hn]\<rparr>)"
    have i: "invoked ?s' = invoked s @ [hn]" by (simp add: executeHandler_invoked)
    show ?thesis
    proof (cases "outer ?s' = Fulfilled")
      case True
      from Cons[of ?s'] obtain k where k: "k \<le> length hs"
        "invoked (snd (each c an hs ?s')) = invoked ?s' @ take k hs"
        "fst (each c an hs ?s') = Fulfilled \<longrightarrow> k = length hs" by blast
      with Some True i show ?thesis by (intro exI[of _ "Suc k"]) (simp add: Let_def)
    next
      case False
      with Some i show ?thesis
        by (intro exI[of _ "Suc 0"]) (auto simp: Let_def split: promise.splits)
    qed
  qed
qed

lemma chain_invoked: "invoked (snd (executeHandlerChain c an hs s)) = invoked (snd (each c an hs s))"
  by (cases "each c an hs s")
     (auto simp: executeHandlerChain_def Let_def split: promise.splits error.splits)

lemma each_stops:
  "each c an pre s = (p, s') \<Longrightarrow> p \<noteq> Fulfilled \<Longrightarrow> each c an (pre @ hs) s = (p, s')"
  by (cases p) (simp_all add: each_append)

lemma chain_stops:
  "each c an pre s = (p, s') \<Longrightarrow> p \<noteq> Fulfilled \<Longrightarrow>
   executeHandlerChain c an (pre @ hs) s = executeHandlerChain c an pre s"
  by (simp add: executeHandlerChain_def each_stops)

subsection \<open>The chain\<close>

lemma chain_head:
  assumes "get (prototype c) hn = Some h"
  shows "executeHandlerChain c an (hn # rest) s =
     (let s1 = executeHandler (strictAsyncMode c) an h (s\<lparr>invoked := invoked s @ [hn]\<rparr>)
      in case outer s1 of
           Fulfilled \<Rightarrow> executeHandlerChain c an rest s1
         | Rejected CancellationError \<Rightarrow>
             (Rejected CancellationError, s1\<lparr>nextCalls := nextCalls s1 @ [None]\<rparr>)
         | Rejected e \<Rightarrow> (Rejected e, s1\<lparr>nextCalls := nextCalls s1 @ [Some e]\<rparr>)
         | Pending \<Rightarrow> (Pending, s1))"
  using assms
  by (simp add: executeHandlerChain_def Let_def split: promise.splits error.splits)

text \<open>
  Claim C3. The state \<open>s\<close> is the state of the dispatch when the chain reaches the
  handler \<open>hn\<close>; \<open>rest\<close> are the handlers after it. A handler that returns a then-able
  (and does not invoke the trigger; that case is claim C7) makes the executor wait for it. While it stays pending the chain
  stays pending. When it rejects, the chain is rejected with the reason: no further
  handler is invoked and the continuation receives the reason. When it resolves and the
  response is complete, the chain is rejected with a \<open>CancellationError\<close> (the rest
  is skipped): no further handler is invoked and the continuation is called without
  argument. When it resolves and the response is not complete, the chain goes on with
  the next handler.
\<close>

theorem returned_promise_settles:
  assumes "get (prototype c) hn = Some h"
    and "completes h = ReturnsPromise sent settle"
    and "\<forall>e. CallNext e \<notin> set (during_call h)"
  shows "let complete = (headersSent s \<or> Send \<in> set (during_call h) \<or> sent);
             r = executeHandlerChain c an (hn # rest) s
         in (settle = NeverSettles \<longrightarrow>
               fst r = Pending \<and> invoked (snd r) = invoked s @ [hn] \<and> nextCalls (snd r) = nextCalls s) \<and>
            (\<forall>e. settle = Rejects e \<longrightarrow>
               fst r = Rejected (HandlerError e) \<and> invoked (snd r) = invoked s @ [hn] \<and>
               nextCalls (snd r) = nextCalls s @ [Some (HandlerError e)]) \<and>
            (settle = Resolves \<and> complete \<longrightarrow>
               fst r = Rejected CancellationError \<and> invoked (snd r) = invoked s @ [hn] \<and>
               nextCalls (snd r) = nextCalls s @ [None]) \<and>
            (settle = Resolves \<and> \<not> complete \<longrightarrow>
               r = executeHandlerChain c an rest
                     (s\<lparr>invoked := invoked s @ [hn], handlerReturnedPromise := True,
                        handlerCalledNext := False, headersSent := False,
                        outer := Fulfilled\<rparr>))"
  using assms(2,3)
  by (cases settle)
     (auto simp: chain_head[OF assms(1)] executeHandler_promise Let_def)

text \<open>
  Claim C2, as amended. Take a handler that returns no then-able and does not invoke the
  trigger. If it declares fewer than three parameters: in strict mode the chain fails
  with \<open>MissingCompletionSignal\<close>, whether the response is complete or not; with
  strict mode off the chain goes on with the next handler when the response is not
  complete and skips the rest when it is. If it declares three parameters or more, the
  executor keeps waiting for the trigger and the dispatch stays pending.
\<close>

theorem synchronous_handler:
  assumes "get (prototype c) hn = Some h"
    and "completes h = ReturnsValue"
    and "\<forall>e. CallNext e \<notin> set (during_call h)"
  shows "let complete = (headersSent s \<or> Send \<in> set (during_call h));
             r = executeHandlerChain c an (hn # rest) s
         in (arity h < 3 \<and> strictAsyncMode c \<longrightarrow>
               fst r = Rejected (MissingCompletionSignal (fname h)) \<and>
               invoked (snd r) = invoked s @ [hn] \<and>
               nextCalls (snd r) = nextCalls s @ [Some (MissingCompletionSignal (fname h))]) \<and>
            (arity h < 3 \<and> \<not> strictAsyncMode c \<and> \<not> complete \<longrightarrow>
               r = executeHandlerChain c an rest
                     (s\<lparr>invoked := invoked s @ [hn], handlerReturnedPromise := False,
                        handlerCalledNext := False, headersSent := False,
                        outer := Fulfilled\<rparr>)) \<and>
            (arity h < 3 \<and> \<not> strictAsyncMode c \<and> complete \<longrightarrow>
               fst r = Rejected CancellationError \<and> invoked (snd r) = invoked s @ [hn] \<and>
               nextCalls (snd r) = nextCalls s @ [None]) \<and>
            (3 \<le> arity h \<longrightarrow>
               fst r = Pending \<and> invoked (snd r) = invoked s @ [hn] \<and> nextCalls (snd r) = nextCalls s)"
  using assms(2,3)
  by (auto simp: chain_head[OF assms(1)] executeHandler_value Let_def)

text \<open>
  Claim C8. When every handler of the chain ran and was fulfilled, and the response is
  not complete at the end, the dispatch fails with \<open>IncompleteActionError\<close>, whose
  message names the action, and the continuation is called with this error. (By
  \<open>each_fulfilled\<close> the response is never complete at that point.)
\<close>

theorem incomplete_action:
  assumes "hasOwnProperty (prototype c) an"
    and "each c an (buildHandlers c an) s = (Fulfilled, s')"
    and "\<not> headersSent s'"
  shows "action c an s =
           Inr (Rejected (IncompleteActionError an),
                s'\<lparr>nextCalls := nextCalls s' @ [Some (IncompleteActionError an)]\<rparr>)"
  using assms by (simp add: action_def executeHandlerChain_def isResSent_def)

text \<open>
  Claim C9, as amended. The middleware throws \<open>UndefinedAction\<close> when the action name
  is not an own property of the controller's prototype, inherited or not. A name of the
  handler chain that resolves to nothing makes the dispatch fail with
  \<open>UndefinedFilter\<close> when the chain reaches it, that is when every handler before it
  was fulfilled. When the handlers before it do not all proceed (one fails, skips or
  stays pending), the name is not looked up: the dispatch ends as the chain of the
  handlers before it ends, pending, skipped with a call of the continuation without
  argument, or failed with that handler's error passed to the continuation.
\<close>

theorem undefined_action_and_filter:
  "(\<not> hasOwnProperty (prototype c) an \<longrightarrow> action c an s = Inl (UndefinedAction an)) \<and>
   (\<forall>pre hn rest s'.
      hasOwnProperty (prototype c) an \<and> buildHandlers c an = pre @ hn # rest \<and>
      each c an pre s = (Fulfilled, s') \<and> get (prototype c) hn = None \<longrightarrow>
      action c an s =
        Inr (Rejected (UndefinedFilter hn),
             s'\<lparr>nextCalls := nextCalls s' @ [Some (UndefinedFilter hn)]\<rparr>)) \<and>
   (\<forall>pre hn rest p s'.
      hasOwnProperty (prototype c) an \<and> buildHandlers c an = pre @ hn # rest \<and>
      each c an pre s = (p, s') \<and> p \<noteq> Fulfilled \<longrightarrow>
      action c an s = Inr (executeHandlerChain c an pre s) \<and>
      (p = Pending \<longrightarrow> action c an s = Inr (Pending, s')) \<and>
      (p = Rejected CancellationError \<longrightarrow>
         action c an s = Inr (p, s'\<lparr>nextCalls := nextCalls s' @ [None]\<rparr>)) \<and>
      (\<forall>e. p = Rejected e \<and> e \<noteq> CancellationError \<longrightarrow>
         action c an s = Inr (p, s'\<lparr>nextCalls := nextCalls s' @ [Some e]\<rparr>)))"
  (is "?undefined_action \<and> ?reached \<and> ?not_reached")
proof (intro conjI)
  show ?undefined_action by (simp add: action_def)
  show ?reached by (auto simp: action_def executeHandlerChain_def each_append)
  show ?not_reached
  proof (intro allI impI)
    fix pre hn rest p s'
    assume a: "hasOwnProperty (prototype c) an \<and> buildHandlers c an = pre @ hn # rest \<and>
        each c an pre s = (p, s') \<and> p \<noteq> Fulfilled"
    then have st: "each c an (pre @ hn # rest) s = (p, s')" by (simp add: each_stops)
    from a have 1: "action c an s = Inr (executeHandlerChain c an pre s)"
      by (simp add: action_def chain_stops)
    from a st have 2: "p = Pending \<longrightarrow> action c an s = Inr (Pending, s')"
      by (auto simp: action_def executeHandlerChain_def)
    from a st have 3: "p = Rejected CancellationError \<longrightarrow>
           action c an s = Inr (p, s'\<lparr>nextCalls := nextCalls s' @ [None]\<rparr>)"
      by (auto simp: action_def executeHandlerChain_def)
    from a st have 4: "\<forall>e. p = Rejected e \<and> e \<noteq> CancellationError \<longrightarrow>
           action c an s = Inr (p, s'\<lparr>nextCalls := nextCalls s' @ [Some e]\<rparr>)"
      by (auto simp: action_def executeHandlerChain_def Let_def split: error.splits)
    from 1 2 3 4
    show "action c an s = Inr (executeHandlerChain c an pre s) \<and>
      (p = Pending \<longrightarrow> action c an s = Inr (Pending, s')) \<and>
      (p = Rejected CancellationError \<longrightarrow>
         action c an s = Inr (p, s'\<lparr>nextCalls := nextCalls s' @ [None]\<rparr>)) \<and>
      (\<forall>e. p = Rejected e \<and> e \<noteq> CancellationError \<longrightarrow>
         action c an s = Inr (p, s'\<lparr>nextCalls := nextCalls s' @ [Some e]\<rparr>))"
      by blast
  qed
qed

theorem synchronous_handler_witness:
  "fst (executeHandlerChain responding ''create'' [''create''] (request True))
     = Rejected (MissingCompletionSignal ''create'') \<and>
   executeHandlerChain relaxed ''create'' [''log'', ''create''] (request False)
     = executeHandlerChain relaxed ''create'' [''create'']
         ((request False)\<lparr>invoked := [''log''], outer := Fulfilled\<rparr>) \<and>
   fst (executeHandlerChain relaxed ''create'' [''create'']
         ((request False)\<lparr>invoked := [''log''], outer := Fulfilled\<rparr>))
     = Rejected CancellationError"
proof -
  have g1: "get (prototype responding) ''create'' = Some responds"
    by (simp add: responding_def)
  have c1: "completes responds = ReturnsValue" "\<forall>e. CallNext e \<notin> set (during_call responds)"
    by (simp_all add: responds_def)
  have a: "fst (executeHandlerChain responding ''create'' [''create''] (request True))
     = Rejected (MissingCompletionSignal ''create'')"
    using synchronous_handler[OF g1 c1, of "request True" "''create''" "[]"]
    by (simp add: Let_def responds_def responding_def)
  have g2: "get (prototype relaxed) ''log'' = Some logs"
    by (simp add: relaxed_def)
  have c2: "completes logs = ReturnsValue" "\<forall>e. CallNext e \<notin> set (during_call logs)"
    by (simp_all add: logs_def)
  have b: "executeHandlerChain relaxed ''create'' [''log'', ''create''] (request False)
     = executeHandlerChain relaxed ''create'' [''create'']
         ((request False)\<lparr>invoked := [''log''], outer := Fulfilled\<rparr>)"
    using synchronous_handler[OF g2 c2, of "request False" "''create''" "[''create'']"]
    by (simp add: Let_def logs_def relaxed_def request_def)
  have g3: "get (prototype relaxed) ''create'' = Some responds"
    by (simp add: relaxed_def)
  have c: "fst (executeHandlerChain relaxed ''create'' [''create'']
         ((request False)\<lparr>invoked := [''log''], outer := Fulfilled\<rparr>))
     = Rejected CancellationError"
    using synchronous_handler[OF g3 c1,
        of "(request False)\<lparr>invoked := [''log''], outer := Fulfilled\<rparr>" "''create''" "[]"]
    by (simp add: Let_def responds_def relaxed_def request_def)
  from a b c show ?thesis by simp
qed

theorem returned_promise_settles_witness:
  "executeHandlerChain guarded ''create'' [''auth'', ''create''] (request False)
     = executeHandlerChain guarded ''create'' [''create'']
         ((request False)\<lparr>invoked := [''auth''], handlerReturnedPromise := True,
                           outer := Fulfilled\<rparr>) \<and>
   fst (executeHandlerChain guarded ''create'' [''create'']
         ((request False)\<lparr>invoked := [''auth''], handlerReturnedPromise := True,
                           outer := Fulfilled\<rparr>)) = Rejected CancellationError \<and>
   nextCalls (snd (executeHandlerChain guarded ''create'' [''create'']
         ((request False)\<lparr>invoked := [''auth''], handlerReturnedPromise := True,
                           outer := Fulfilled\<rparr>))) = [None]"
proof -
  have g1: "get (prototype guarded) ''auth'' = Some auth"
    by (simp add: guarded_def)
  have c1: "completes auth = ReturnsPromise False Resolves"
           "\<forall>e. CallNext e \<notin> set (during_call auth)"
    by (simp_all add: auth_def)
  have a: "executeHandlerChain guarded ''create'' [''auth'', ''create''] (request False)
     = executeHandlerChain guarded ''create'' [''create'']
         ((request False)\<lparr>invoked := [''auth''], handlerReturnedPromise := True,
                           outer := Fulfilled\<rparr>)"
    using returned_promise_settles[OF g1 c1, of "request False" "''create''" "[''create'']"]
    by (simp add: Let_def auth_def request_def)
  have g2: "get (prototype guarded) ''create'' = Some saves"
    by (simp add: guarded_def)
  have c2: "completes saves = ReturnsPromise True Resolves"
           "\<forall>e. CallNext e \<notin> set (during_call saves)"
    by (simp_all add: saves_def)
  have b: "fst (executeHandlerChain guarded ''create'' [''create'']
         ((request False)\<lparr>invoked := [''auth''], handlerReturnedPromise := True,
                           outer := Fulfilled\<rparr>)) = Rejected CancellationError \<and>
     nextCalls (snd (executeHandlerChain guarded ''create'' [''create'']
         ((request False)\<lparr>invoked := [''auth''], handlerReturnedPromise := True,
                           outer := Fulfilled\<rparr>))) = [None]"
    using returned_promise_settles[OF g2 c2,
        of "(request False)\<lparr>invoked := [''auth''], handlerReturnedPromise := True,
                           outer := Fulfilled\<rparr>" "''create''" "[]"]
    by (simp add: Let_def saves_def request_def)
  from a b show ?thesis by simp
qed

theorem incomplete_action_witness:
  "hasOwnProperty (prototype silent) ''create'' \<and>
   fst (projr (action silent ''create'' (request False)))
     = Rejected (IncompleteActionError ''create'') \<and>
   nextCalls (snd (projr (action silent ''create'' (request False))))
     = [Some (IncompleteActionError ''create'')]"
proof -
  have own: "hasOwnProperty (prototype silent) ''create''"
    by (simp add: silent_def)
  have e: "each silent ''create'' (buildHandlers silent ''create'') (request False)
             = (Fulfilled, snd (each silent ''create'' (buildHandlers silent ''create'')
                                 (request False)))"
    by (simp add: silent_def auth_def exec_defs)
  have n: "\<not> headersSent (snd (each silent ''create'' (buildHandlers silent ''create'')
                                 (request False)))"
    by (simp add: silent_def auth_def exec_defs)
  have c: "nextCalls (snd (each silent ''create'' (buildHandlers silent ''create'')
                                 (request False))) = []"
    by (simp add: silent_def auth_def exec_defs)
  from incomplete_action[OF own e n] own c show ?thesis by simp
qed

subsection \<open>Counterexamples\<close>

text \<open>
  Claim C2 as stated fails: in strict mode a handler that has sent the response, returns
  no then-able and has no \<^verbatim>\<open>next\<close> parameter is not taken as a success; the dispatch fails
  with \<open>MissingCompletionSignal\<close>.
\<close>

theorem strict_rejects_a_handler_that_responded:
  "\<not> isl responding_dispatch \<and>
   headersSent (snd (projr responding_dispatch)) \<and>
   fst (projr responding_dispatch) = Rejected (MissingCompletionSignal ''create'') \<and>
   nextCalls (snd (projr responding_dispatch)) = [Some (MissingCompletionSignal ''create'')]"
  by (simp add: responding_dispatch_def responding_def responds_def exec_defs)

text \<open>
  Claim C7 says that a handler that both invokes the trigger and returns a then-able
  makes the dispatch fail with \<open>DualCompletionError\<close>. The action of \<open>dual\<close> invokes
  the trigger with an error and then returns a promise: the trigger has rejected the
  handler's promise already, so the exception thrown after the return changes nothing,
  and the dispatch fails with the handler's error. By \<open>never_dual\<close> no handler that
  signals before it returns ever yields \<open>DualCompletionError\<close>.
\<close>

theorem dual_completion_is_not_reported:
  "\<not> isl dual_dispatch \<and>
   fst (projr dual_dispatch) = Rejected (HandlerError 7) \<and>
   nextCalls (snd (projr dual_dispatch)) = [Some (HandlerError 7)] \<and>
   invoked (snd (projr dual_dispatch)) = [''create'']"
  by (simp add: dual_dispatch_def dual_def signals_twice_def exec_defs)

lemma broken_eval:
  "prototype broken = broken_proto" "strictAsyncMode broken"
  "buildHandlers broken ''create'' = [''auth'', ''missing'', ''create'']"
  by (simp_all add: broken_def broken_proto_def exec_defs eval_defs)

text \<open>
  Claim C9 as stated fails: there is no check of the filter names before the handlers
  run. In \<open>broken\<close> the chain contains the undefined filter \<^verbatim>\<open>missing\<close>, the filter before
  it throws, and the dispatch fails with that error, not with \<open>UndefinedFilter\<close>.
\<close>

theorem later_undefined_filter_is_not_checked:
  "''missing'' \<in> set (buildHandlers broken ''create'') \<and>
   get (prototype broken) ''missing'' = None \<and>
   \<not> isl broken_dispatch \<and>
   fst (projr broken_dispatch) = Rejected (HandlerError 1) \<and>
   nextCalls (snd (projr broken_dispatch)) = [Some (HandlerError 1)]"
  by (simp add: broken_dispatch_def action_def executeHandlerChain_def broken_eval
      broken_proto_def base_def throws_def saves_def executeHandler_def reject_def request_def)

subsection \<open>The continuation is called twice when a handler skips\<close>

text \<open>
  Claim C1 says that the framework's continuation is invoked at most once per dispatch,
  and exactly once, without argument, when the dispatch is skipped. In the controller
  \<open>skipping\<close> the action invokes the trigger without an error. The faked \<^verbatim>\<open>next\<close>
  rejects the handler's promise with a \<open>CancellationError\<close> and calls the framework's
  \<^verbatim>\<open>next\<close>; the \<^verbatim>\<open>catch\<close> for \<open>CancellationError\<close> of \<^verbatim>\<open>_executeHandlerChain\<close> calls it again.
\<close>

theorem skip_calls_next_twice:
  "\<not> isl skipping_dispatch \<and>
   fst (projr skipping_dispatch) = Rejected CancellationError \<and>
   nextCalls (snd (projr skipping_dispatch)) = [None, None]"
  by (simp add: skipping_dispatch_def skipping_def calls_next_def exec_defs)

subsection \<open>Undefined filters that are reached and that are not\<close>

lemma reaching_eval:
  "prototype reaching = reaching_proto" "strictAsyncMode reaching"
  "buildHandlers reaching ''create'' = [''auth'', ''missing'', ''create'']"
  by (simp_all add: reaching_def reaching_proto_def exec_defs eval_defs)

lemma bypassing_eval:
  "prototype bypassing = bypassing_proto" "strictAsyncMode bypassing"
  "buildHandlers bypassing ''create'' = [''auth'', ''missing'', ''create'']"
  by (simp_all add: bypassing_def bypassing_proto_def exec_defs eval_defs)

theorem undefined_action_and_filter_witness:
  "get (prototype inheriting) ''create'' = Some saves \<and>
   \<not> hasOwnProperty (prototype inheriting) ''create'' \<and>
   action inheriting ''create'' (request False) = Inl (UndefinedAction ''create'') \<and>
   hasOwnProperty (prototype reaching) ''filters'' \<and>
   get (prototype reaching) ''missing'' = None \<and>
   fst (each reaching ''create'' [''auth''] (request False)) = Fulfilled \<and>
   fst (projr (action reaching ''create'' (request False))) = Rejected (UndefinedFilter ''missing'') \<and>
   nextCalls (snd (projr (action reaching ''create'' (request False))))
     = [Some (UndefinedFilter ''missing'')] \<and>
   get (prototype broken) ''missing'' = None \<and>
   fst (projr (action broken ''create'' (request False))) = Rejected (HandlerError 1) \<and>
   nextCalls (snd (projr (action broken ''create'' (request False)))) = [Some (HandlerError 1)] \<and>
   get (prototype bypassing) ''missing'' = None \<and>
   fst (projr (action bypassing ''create'' (request False))) = Rejected CancellationError \<and>
   nextCalls (snd (projr (action bypassing ''create'' (request False)))) = [None, None]"
proof -
  have i: "get (prototype inheriting) ''create'' = Some saves"
          "\<not> hasOwnProperty (prototype inheriting) ''create''"
    by (simp_all add: inheriting_def)
  with undefined_action_and_filter[of inheriting "''create''" "request False"]
  have a: "action inheriting ''create'' (request False) = Inl (UndefinedAction ''create'')"
    by blast
  have r: "hasOwnProperty (prototype reaching) ''create''"
          "hasOwnProperty (prototype reaching) ''filters''"
          "buildHandlers reaching ''create'' = [''auth''] @ ''missing'' # [''create'']"
          "get (prototype reaching) ''missing'' = None"
    by (simp_all add: reaching_eval reaching_proto_def base_def)
  have re: "each reaching ''create'' [''auth''] (request False)
              = (Fulfilled, snd (each reaching ''create'' [''auth''] (request False)))"
       and rn: "nextCalls (snd (each reaching ''create'' [''auth''] (request False))) = []"
    by (simp_all add: reaching_eval reaching_proto_def auth_def executeHandler_def
        resolve_def isResSent_def request_def Let_def)
  from undefined_action_and_filter[of reaching "''create''" "request False"] r re
  have ra: "action reaching ''create'' (request False)
     = Inr (Rejected (UndefinedFilter ''missing''),
            (snd (each reaching ''create'' [''auth''] (request False)))
              \<lparr>nextCalls := nextCalls (snd (each reaching ''create'' [''auth''] (request False)))
                              @ [Some (UndefinedFilter ''missing'')]\<rparr>)"
    by blast
  have b: "hasOwnProperty (prototype broken) ''create''"
          "buildHandlers broken ''create'' = [''auth''] @ ''missing'' # [''create'']"
          "get (prototype broken) ''missing'' = None"
    by (simp_all add: broken_eval broken_proto_def base_def)
  have be: "each broken ''create'' [''auth''] (request False)
              = (Rejected (HandlerError 1), snd (each broken ''create'' [''auth''] (request False)))"
       and bn: "nextCalls (snd (each broken ''create'' [''auth''] (request False))) = []"
    by (simp_all add: broken_eval broken_proto_def throws_def executeHandler_def
        reject_def request_def Let_def)
  from undefined_action_and_filter[of broken "''create''" "request False"] b be
  have ba: "action broken ''create'' (request False)
     = Inr (Rejected (HandlerError 1),
            (snd (each broken ''create'' [''auth''] (request False)))
              \<lparr>nextCalls := nextCalls (snd (each broken ''create'' [''auth''] (request False)))
                              @ [Some (HandlerError 1)]\<rparr>)"
    by blast
  have y: "hasOwnProperty (prototype bypassing) ''create''"
          "buildHandlers bypassing ''create'' = [''auth''] @ ''missing'' # [''create'']"
          "get (prototype bypassing) ''missing'' = None"
    by (simp_all add: bypassing_eval bypassing_proto_def base_def)
  have ye: "each bypassing ''create'' [''auth''] (request False)
              = (Rejected CancellationError,
                 snd (each bypassing ''create'' [''auth''] (request False)))"
       and yn: "nextCalls (snd (each bypassing ''create'' [''auth''] (request False))) = [None]"
    by (simp_all add: bypassing_eval bypassing_proto_def calls_next_def executeHandler_def
        fake_next_def reject_def request_def Let_def)
  from undefined_action_and_filter[of bypassing "''create''" "request False"] y ye
  have ya: "action bypassing ''create'' (request False)
     = Inr (Rejected CancellationError,
            (snd (each bypassing ''create'' [''auth''] (request False)))
              \<lparr>nextCalls := nextCalls (snd (each bypassing ''create'' [''auth''] (request False)))
                              @ [None]\<rparr>)"
    by blast
  have rf: "fst (each reaching ''create'' [''auth''] (request False)) = Fulfilled"
    using re by (metis fst_conv)
  have r': "fst (projr (action reaching ''create'' (request False)))
              = Rejected (UndefinedFilter ''missing'')"
    "nextCalls (snd (projr (action reaching ''create'' (request False))))
       = [Some (UndefinedFilter ''missing'')]"
    by (simp_all add: ra rn del: each.simps)
  have b': "fst (projr (action broken ''create'' (request False))) = Rejected (HandlerError 1)"
    "nextCalls (snd (projr (action broken ''create'' (request False)))) = [Some (HandlerError 1)]"
    by (simp_all add: ba bn del: each.simps)
  have y': "fst (projr (action bypassing ''create'' (request False))) = Rejected CancellationError"
    "nextCalls (snd (projr (action bypassing ''create'' (request False)))) = [None, None]"
    by (simp_all add: ya yn del: each.simps)
  from i a r(2,4) rf r' b(3) b' y(3) y' show ?thesis by blast
qed

section \<open>Ancestors first\<close>

text \<open>
  Claim C6. Take a controller whose prototype has the \<^verbatim>\<open>filters\<close> procedure \<open>proc\<close> (its
  own or an inherited one), above it at least one more prototype. Composition runs the
  procedures of all levels on one registry, the most ancestral first and \<open>proc\<close> last:
  the registry of the controller is the registry of its ancestors, on which \<open>proc\<close> has
  run. The declarations of the ancestors come first in the list and those that \<open>proc\<close>
  declares follow. So the handler chain of every action consists of the before-filters
  of the ancestors, the before-filters that \<open>proc\<close> declares, the action, the
  after-filters of the ancestors, and the after-filters that \<open>proc\<close> declares; and a
  dispatch invokes the handlers of that chain in its order, from the first one on, all
  of them when each lets the chain proceed.
\<close>

theorem ancestors_first:
  assumes "get_filters (Proto fs ms (Proto fs' ms' p)) = Some proc"
    and "new (Proto fs ms (Proto fs' ms' p)) strict objs = Inr c"
  shows "buildFilters (Proto fs ms (Proto fs' ms' p)) objs
           = run (concat (procedure_order (Proto fs ms (Proto fs' ms' p)))) (init objs) \<and>
         last (procedure_order (Proto fs ms (Proto fs' ms' p))) = proc \<and>
         (\<exists>d new. buildFilters (Proto fs' ms' p) objs = Inr d \<and> run proc d = Inr (registry c) \<and>
            filters (registry c) = filters d @ new \<and>
            map (\<lambda>f. (name f, stage f)) new = concat (map declares proc) \<and>
            (\<forall>a. buildHandlers c a =
                    map name (filter (applies (registry c) a Before) (filters d)) @
                    map name (filter (applies (registry c) a Before) new) @ [a] @
                    map name (filter (applies (registry c) a After) (filters d)) @
                    map name (filter (applies (registry c) a After) new))) \<and>
         (\<forall>a s r. action c a s = Inr r \<longrightarrow>
            (\<exists>k \<le> length (buildHandlers c a).
               invoked (snd r) = invoked s @ take k (buildHandlers c a) \<and>
               (fst (each c a (buildHandlers c a) s) = Fulfilled \<longrightarrow>
                  k = length (buildHandlers c a)) \<and>
               (get (prototype c) (hd (buildHandlers c a)) \<noteq> None \<longrightarrow> 0 < k)))"
proof (intro conjI allI impI)
  show "buildFilters (Proto fs ms (Proto fs' ms' p)) objs
           = run (concat (procedure_order (Proto fs ms (Proto fs' ms' p)))) (init objs)"
    by (rule buildFilters_order)
  show "last (procedure_order (Proto fs ms (Proto fs' ms' p))) = proc"
    using assms(1) by (simp del: get_filters.simps)
  from assms(2) have b: "buildFilters (Proto fs ms (Proto fs' ms' p)) objs = Inr (registry c)"
    by (auto simp: new_def split: sum.splits)
  with assms(1) obtain d where
    d: "buildFilters (Proto fs' ms' p) objs = Inr d" "run proc d = Inr (registry c)"
    by (auto simp: buildFilters_step split: sum.splits)
  from run_appends[OF d(2)] obtain new where
    new: "filters (registry c) = filters d @ new"
         "map (\<lambda>f. (name f, stage f)) new = concat (map declares proc)"
    by blast
  with d show "\<exists>d new. buildFilters (Proto fs' ms' p) objs = Inr d \<and>
            run proc d = Inr (registry c) \<and>
            filters (registry c) = filters d @ new \<and>
            map (\<lambda>f. (name f, stage f)) new = concat (map declares proc) \<and>
            (\<forall>a. buildHandlers c a =
                    map name (filter (applies (registry c) a Before) (filters d)) @
                    map name (filter (applies (registry c) a Before) new) @ [a] @
                    map name (filter (applies (registry c) a After) (filters d)) @
                    map name (filter (applies (registry c) a After) new))"
    by (intro exI[of _ d] exI[of _ new]) (simp add: buildHandlers_def filtersForAction_def)
next
  fix a s r
  assume "action c a s = Inr r"
  then have r: "r = executeHandlerChain c a (buildHandlers c a) s"
    by (auto simp: action_def split: if_splits)
  from each_invoked[of "buildHandlers c a" c a s] buildHandlers_not_empty[of c a]
  show "\<exists>k \<le> length (buildHandlers c a).
               invoked (snd r) = invoked s @ take k (buildHandlers c a) \<and>
               (fst (each c a (buildHandlers c a) s) = Fulfilled \<longrightarrow>
                  k = length (buildHandlers c a)) \<and>
               (get (prototype c) (hd (buildHandlers c a)) \<noteq> None \<longrightarrow> 0 < k)"
    unfolding r chain_invoked by blast
qed

lemmas build_defs =
  buildFilters_def books_proto_def application_proto_def base_def eval_defs

lemma books_build:
  "buildFilters books_proto no_objects = Inr (projr (buildFilters books_proto no_objects))"
  by (simp add: build_defs)

lemma books_new: "new books_proto True no_objects = Inr books"
proof -
  obtain d where "buildFilters books_proto no_objects = Inr d" using books_build by blast
  then show ?thesis by (simp add: books_def new_def)
qed

lemma books_fields:
  "prototype books = books_proto" "strictAsyncMode books"
  "registry books = projr (buildFilters books_proto no_objects)"
proof -
  obtain d where "buildFilters books_proto no_objects = Inr d" using books_build by blast
  then show "prototype books = books_proto" "strictAsyncMode books"
    "registry books = projr (buildFilters books_proto no_objects)"
    by (simp_all add: books_def new_def)
qed

lemma books_filters:
  "filters (registry books) =
     [\<lparr>name = ''authenticate'', stage = Before, options = Created 0\<rparr>,
      \<lparr>name = ''log'', stage = After, options = Created 1\<rparr>,
      \<lparr>name = ''load'', stage = Before, options = Created 2\<rparr>,
      \<lparr>name = ''notify'', stage = After, options = Created 3\<rparr>]"
  by (simp add: books_fields build_defs)

lemma books_heap:
  "k < 4 \<Longrightarrow> heap (registry books) (Created k)
     = \<lparr>only = Arr [], except = Arr [], skip = False\<rparr>"
  by (simp add: books_fields build_defs)

lemma application_filters:
  "filters (projr (buildFilters application_proto no_objects)) =
     [\<lparr>name = ''authenticate'', stage = Before, options = Created 0\<rparr>,
      \<lparr>name = ''log'', stage = After, options = Created 1\<rparr>]"
  by (simp add: build_defs)

lemma books_all_run:
  "fst (each books ''create'' [''authenticate'', ''load'', ''create'', ''log'', ''notify'']
          (request False)) = Fulfilled"
  by (simp add: books_fields books_proto_def application_proto_def base_def auth_def
      executeHandler_def resolve_def isResSent_def request_def Let_def)

lemma posts_build:
  "buildFilters posts_proto no_objects = Inr (projr (buildFilters posts_proto no_objects))"
  by (simp add: buildFilters_def posts_proto_def members_proto_def base_def eval_defs)

lemma posts_new: "new posts_proto True no_objects = Inr posts"
proof -
  obtain d where "buildFilters posts_proto no_objects = Inr d" using posts_build by blast
  then show ?thesis by (simp add: posts_def new_def)
qed

lemma posts_registry: "registry posts = projr (buildFilters posts_proto no_objects)"
proof -
  obtain d where "buildFilters posts_proto no_objects = Inr d" using posts_build by blast
  then show ?thesis by (simp add: posts_def new_def)
qed

lemma members_filters:
  "filters (projr (buildFilters members_proto no_objects)) =
     [\<lparr>name = ''auth'', stage = Before, options = Created 0\<rparr>]"
  by (simp add: buildFilters_def members_proto_def base_def eval_defs)

lemma posts_filters:
  "filters (registry posts) =
     [\<lparr>name = ''auth'', stage = Before, options = Created 0\<rparr>,
      \<lparr>name = ''auth'', stage = Before, options = Created 1\<rparr>]"
  by (simp add: posts_registry buildFilters_def posts_proto_def members_proto_def base_def
      eval_defs)

lemma posts_heap:
  "k < 2 \<Longrightarrow> heap (registry posts) (Created k)
     = \<lparr>only = Arr [''index''], except = Arr [], skip = False\<rparr>"
  by (simp add: posts_registry buildFilters_def posts_proto_def members_proto_def base_def
      eval_defs)

theorem ancestors_first_witness:
  "new books_proto True no_objects = Inr books \<and>
   buildHandlers books ''create'' = [''authenticate'', ''load'', ''create'', ''log'', ''notify''] \<and>
   invoked (snd (projr (action books ''create'' (request False))))
     = [''authenticate'', ''load'', ''create'', ''log'', ''notify''] \<and>
   get_filters posts_proto
     = Some [CallBefore (StringName ''auth'')
               (Literal \<lparr>only = Str ''index'', except = Undefined, skip = False\<rparr>)] \<and>
   new posts_proto True no_objects = Inr posts \<and>
   buildHandlers posts ''index'' = [''auth'', ''auth'', ''index'']"
proof -
  have g: "get_filters books_proto
     = Some [CallBefore (StringName ''load'') Omitted, CallAfter (StringName ''notify'') Omitted]"
    by (simp add: books_proto_def)
  note t = ancestors_first[OF g[unfolded books_proto_def application_proto_def base_def]
                             books_new[unfolded books_proto_def application_proto_def base_def]]
  from t obtain d new where
    d: "buildFilters application_proto no_objects = Inr d"
    and f: "filters (registry books) = filters d @ new"
    and o: "\<forall>a. buildHandlers books a =
                    map name (filter (applies (registry books) a Before) (filters d)) @
                    map name (filter (applies (registry books) a Before) new) @ [a] @
                    map name (filter (applies (registry books) a After) (filters d)) @
                    map name (filter (applies (registry books) a After) new)"
    unfolding books_proto_def application_proto_def base_def by blast
  from d have "d = projr (buildFilters application_proto no_objects)" by simp
  then have fd: "filters d = [\<lparr>name = ''authenticate'', stage = Before, options = Created 0\<rparr>,
      \<lparr>name = ''log'', stage = After, options = Created 1\<rparr>]"
    by (simp add: application_filters)
  with f have new: "new = [\<lparr>name = ''load'', stage = Before, options = Created 2\<rparr>,
      \<lparr>name = ''notify'', stage = After, options = Created 3\<rparr>]"
    by (simp add: books_filters)
  have h: "heap (registry books) (Created 0) = \<lparr>only = Arr [], except = Arr [], skip = False\<rparr>"
          "heap (registry books) (Created (Suc 0)) = \<lparr>only = Arr [], except = Arr [], skip = False\<rparr>"
          "heap (registry books) (Created 2) = \<lparr>only = Arr [], except = Arr [], skip = False\<rparr>"
          "heap (registry books) (Created 3) = \<lparr>only = Arr [], except = Arr [], skip = False\<rparr>"
    using books_heap[of 0] books_heap[of 1] books_heap[of 2] books_heap[of 3] by simp_all
  from o[rule_format, of "''create''"]
  have bh: "buildHandlers books ''create''
              = [''authenticate'', ''load'', ''create'', ''log'', ''notify'']"
    by (simp add: fd new applies_def h)
  have own: "hasOwnProperty (prototype books) ''create''"
    by (simp add: books_fields books_proto_def)
  then have a: "action books ''create'' (request False)
                  = Inr (projr (action books ''create'' (request False)))"
    by (simp add: action_def)
  from t a obtain k where
    k: "invoked (snd (projr (action books ''create'' (request False))))
          = invoked (request False) @ take k (buildHandlers books ''create'')"
       "fst (each books ''create'' (buildHandlers books ''create'') (request False)) = Fulfilled
          \<longrightarrow> k = length (buildHandlers books ''create'')"
    by blast
  from k(2) books_all_run have "k = 5" by (simp add: bh)
  with k(1) have inv: "invoked (snd (projr (action books ''create'' (request False))))
     = [''authenticate'', ''load'', ''create'', ''log'', ''notify'']"
    by (simp add: bh request_def)
  have gp: "get_filters posts_proto
     = Some [CallBefore (StringName ''auth'')
               (Literal \<lparr>only = Str ''index'', except = Undefined, skip = False\<rparr>)]"
    by (simp add: posts_proto_def members_proto_def)
  note u = ancestors_first[OF gp[unfolded posts_proto_def members_proto_def base_def]
                             posts_new[unfolded posts_proto_def members_proto_def base_def]]
  from u obtain e new' where
    e: "buildFilters members_proto no_objects = Inr e"
    and pf: "filters (registry posts) = filters e @ new'"
    and po: "\<forall>a. buildHandlers posts a =
                    map name (filter (applies (registry posts) a Before) (filters e)) @
                    map name (filter (applies (registry posts) a Before) new') @ [a] @
                    map name (filter (applies (registry posts) a After) (filters e)) @
                    map name (filter (applies (registry posts) a After) new')"
    unfolding posts_proto_def members_proto_def base_def by blast
  from e have "e = projr (buildFilters members_proto no_objects)" by simp
  then have fe: "filters e = [\<lparr>name = ''auth'', stage = Before, options = Created 0\<rparr>]"
    by (simp add: members_filters)
  with pf have new': "new' = [\<lparr>name = ''auth'', stage = Before, options = Created 1\<rparr>]"
    by (simp add: posts_filters)
  have ph:
    "heap (registry posts) (Created 0) = \<lparr>only = Arr [''index''], except = Arr [], skip = False\<rparr>"
    "heap (registry posts) (Created (Suc 0))
       = \<lparr>only = Arr [''index''], except = Arr [], skip = False\<rparr>"
    using posts_heap[of 0] posts_heap[of 1] by simp_all
  from po[rule_format, of "''index''"]
  have pb: "buildHandlers posts ''index'' = [''auth'', ''auth'', ''index'']"
    by (simp add: fe new' applies_def ph)
  from books_new bh inv gp posts_new pb show ?thesis by simp
qed

text \<open>
  When the inherited procedure passes an object that it holds, the second run finds the
  arrays that the first run has stored in it, both truthy, and construction fails.
\<close>

lemma shared_options_conflict:
  "new sharing_proto True objects = Inl ConflictingOptions"
  by (simp add: new_def buildFilters_def sharing_proto_def base_def eval_defs)

end
